theory Spec2Isabelle
  imports Main
begin

section \<open>The two source files\<close>

text \<open>
  The repository holds the middleware stack twice: \<^verbatim>\<open>src/negroni.go\<close> and
  \<^verbatim>\<open>src/unnamed/part_000\<close>. Both declare package \<^verbatim>\<open>negroni\<close> with the same
  names, and they differ in what the functions do. A definition taken from
  \<^verbatim>\<open>src/unnamed/part_000\<close> keeps the name of the source; a definition taken from
  \<^verbatim>\<open>src/negroni.go\<close> carries the suffix \<open>_ngo\<close>. The interface \<^verbatim>\<open>Handler\<close>
  and the adapter \<^verbatim>\<open>HandlerFunc\<close> are the same in both files and are modelled once.
\<close>

subsection \<open>Panics, handlers, the world a handler acts on\<close>

text \<open>
  A run of Go code either returns or panics. The panics that the two files can raise
  themselves are a nil dereference (calling a method of a nil interface, calling a nil
  function, reading through a nil pointer), an index out of range, a failed type
  assertion, and the explicit \<^verbatim>\<open>panic("handler cannot be nil")\<close>. A handler may
  panic with a message of its own.
\<close>

datatype panic = NilDereference | IndexOutOfRange | TypeAssertion | PanicMsg string

text \<open>
  \<open>'w\<close> is \<^verbatim>\<open>http.ResponseWriter\<close> (a reference to a response sink), \<open>'q\<close> is
  \<^verbatim>\<open>*http.Request\<close>, and \<open>'s\<close> is the state of everything a handler can read or
  write (the sinks' contents and flags, logs, ...). An \<^verbatim>\<open>http.HandlerFunc\<close> takes
  the sink and the request and acts on the state.
\<close>

type_synonym ('w, 'q, 's) http_HandlerFunc = "'w \<Rightarrow> 'q \<Rightarrow> 's \<Rightarrow> panic + 's"

text \<open>
  A value of the interface \<^verbatim>\<open>Handler\<close> is nil or holds an implementation of
  \<^verbatim>\<open>ServeHTTP(rw, r, next)\<close>. \<^verbatim>\<open>HandlerFunc(f)\<close> is the implementation that
  calls \<open>f\<close>.
\<close>

datatype ('w, 'q, 's) Handler =
    NilHandler
  | HandlerFunc "'w \<Rightarrow> 'q \<Rightarrow> ('w, 'q, 's) http_HandlerFunc \<Rightarrow> 's \<Rightarrow> panic + 's"

text \<open>Calling \<^verbatim>\<open>h.ServeHTTP(rw, r, next)\<close> on an interface value \<open>h\<close>.\<close>

fun Handler_ServeHTTP ::
  "('w, 'q, 's) Handler \<Rightarrow> 'w \<Rightarrow> 'q \<Rightarrow> ('w, 'q, 's) http_HandlerFunc \<Rightarrow> 's \<Rightarrow> panic + 's" where
  "Handler_ServeHTTP NilHandler rw r next s = Inl NilDereference"
| "Handler_ServeHTTP (HandlerFunc h) rw r next s = h rw r next s"

text \<open>Calling a nil function value panics.\<close>

definition nil_func :: "('w, 'q, 's) http_HandlerFunc" where
  "nil_func = (\<lambda>rw r s. Inl NilDereference)"

text \<open>
  The response writer of the package (\<^verbatim>\<open>ResponseWriter\<close>, \<^verbatim>\<open>NewResponseWriter\<close>,
  \<^verbatim>\<open>Written\<close>) is declared in a file that is not among the sources. The three
  operations the two files use are parameters of the model:
  \<^item> \<open>NewResponseWriter rw s\<close> wraps a sink and returns the wrapper and the new state;
  \<^item> \<open>isResponseWriter rw\<close> tells whether the type assertion \<^verbatim>\<open>rw.(ResponseWriter)\<close>
    succeeds;
  \<^item> \<open>Written rw s\<close> is the "written" flag of the sink in state \<open>s\<close>.
\<close>

record ('w, 's) sink_ops =
  NewResponseWriter :: "'w \<Rightarrow> 's \<Rightarrow> 'w \<times> 's"
  isResponseWriter :: "'w \<Rightarrow> bool"
  Written :: "'w \<Rightarrow> 's \<Rightarrow> bool"

subsection \<open>Slices of handlers and the store\<close>

text \<open>
  \<^verbatim>\<open>[]Handler\<close> is a slice: a pointer to a backing array, an offset into it, a length
  and a capacity. Two slices may share a backing array, and \<^verbatim>\<open>append\<close> writes into
  the backing array when the capacity allows. The store holds the backing arrays and
  the \<^verbatim>\<open>Negroni\<close> structs; an address is an index into the store.
\<close>

record slice =
  sptr :: nat
  soff :: nat
  slen :: nat
  scap :: nat

record ('w, 'q, 's, 'n) store =
  arrays :: "('w, 'q, 's) Handler list list"
  objs :: "'n list"

text \<open>The nil slice (the zero value of a slice field): no elements, no capacity.\<close>

definition nil_slice :: slice where
  "nil_slice = \<lparr>sptr = 0, soff = 0, slen = 0, scap = 0\<rparr>"

text \<open>The elements a slice shows, read from its backing array.\<close>

definition elems :: "('w, 'q, 's, 'n) store \<Rightarrow> slice \<Rightarrow> ('w, 'q, 's) Handler list" where
  "elems \<sigma> sl = take (slen sl) (drop (soff sl) (arrays \<sigma> ! sptr sl))"

text \<open>
  The invariant of the Go runtime: a slice with capacity lies within an allocated
  backing array, and its length is at most its capacity.
\<close>

definition wf_slice :: "('w, 'q, 's, 'n) store \<Rightarrow> slice \<Rightarrow> bool" where
  "wf_slice \<sigma> sl =
     (slen sl \<le> scap sl \<and>
      (scap sl = 0 \<or>
       (sptr sl < length (arrays \<sigma>) \<and> soff sl + scap sl \<le> length (arrays \<sigma> ! sptr sl))))"

text \<open>Overwriting the cells \<open>i, i+1, ...\<close> of an array with \<open>xs\<close>.\<close>

definition write_at :: "'a list \<Rightarrow> nat \<Rightarrow> 'a list \<Rightarrow> 'a list" where
  "write_at arr i xs = take i arr @ xs @ drop (i + length xs) arr"

text \<open>
  \<^verbatim>\<open>make([]Handler, n)\<close>: a new backing array of \<open>n\<close> nil handlers, and the slice of
  all of it.
\<close>

definition make_slice ::
  "nat \<Rightarrow> ('w, 'q, 's, 'n) store \<Rightarrow> slice \<times> ('w, 'q, 's, 'n) store" where
  "make_slice n \<sigma> =
     (\<lparr>sptr = length (arrays \<sigma>), soff = 0, slen = n, scap = n\<rparr>,
      \<sigma>\<lparr>arrays := arrays \<sigma> @ [replicate n NilHandler]\<rparr>)"

text \<open>
  \<^verbatim>\<open>copy(dst, src)\<close>: the first \<open>min (len dst) (len src)\<close> elements of \<open>src\<close> are
  written into the backing array of \<open>dst\<close>.
\<close>

definition copy_slice ::
  "slice \<Rightarrow> slice \<Rightarrow> ('w, 'q, 's, 'n) store \<Rightarrow> ('w, 'q, 's, 'n) store" where
  "copy_slice dst src \<sigma> =
     \<sigma>\<lparr>arrays := (arrays \<sigma>)[sptr dst :=
          write_at (arrays \<sigma> ! sptr dst) (soff dst)
            (take (min (slen dst) (slen src)) (elems \<sigma> src))]\<rparr>"

text \<open>
  \<^verbatim>\<open>append(sl, xs...)\<close>. When the capacity suffices the new elements are written
  into the backing array of \<open>sl\<close>, behind its last element, and the result shares that
  array. Otherwise a new backing array is allocated. Go leaves the capacity of the new
  array to the implementation: \<open>grow\<close> maps the old capacity and the length needed to
  the capacity wanted, and the new array has at least the length needed.
\<close>

type_synonym growth = "nat \<Rightarrow> nat \<Rightarrow> nat"

definition append_slice ::
  "growth \<Rightarrow> slice \<Rightarrow> ('w, 'q, 's) Handler list \<Rightarrow> ('w, 'q, 's, 'n) store
     \<Rightarrow> slice \<times> ('w, 'q, 's, 'n) store" where
  "append_slice grow sl xs \<sigma> =
     (if slen sl + length xs \<le> scap sl then
        (sl\<lparr>slen := slen sl + length xs\<rparr>,
         \<sigma>\<lparr>arrays := (arrays \<sigma>)[sptr sl :=
              write_at (arrays \<sigma> ! sptr sl) (soff sl + slen sl) xs]\<rparr>)
      else
        (let need = slen sl + length xs;
             newcap = max need (grow (scap sl) need)
         in (\<lparr>sptr = length (arrays \<sigma>), soff = 0, slen = need, scap = newcap\<rparr>,
             \<sigma>\<lparr>arrays := arrays \<sigma> @
                  [elems \<sigma> sl @ xs @ replicate (newcap - need) NilHandler]\<rparr>)))"

section \<open>src/unnamed/part_000\<close>

subsection \<open>The chain\<close>

text \<open>
  \<^verbatim>\<open>middleware\<close> pairs a handler with \<^verbatim>\<open>nextfn\<close>, a function value. The only
  function values the file ever stores there are nil (in the zero value
  \<^verbatim>\<open>middleware{}\<close>) and the method value \<^verbatim>\<open>next.ServeHTTP\<close> made by
  \<^verbatim>\<open>newMiddleware\<close>, a closure that holds a copy of the node \<^verbatim>\<open>*next\<close>. The
  closure is represented by the node it holds: \<open>None\<close> is the nil function and
  \<open>Some m\<close> is \<^verbatim>\<open>m.ServeHTTP\<close>.
\<close>

datatype ('w, 'q, 's) middleware =
  Middleware (handler: "('w, 'q, 's) Handler") (nextfn: "('w, 'q, 's) middleware option")

text \<open>\<^verbatim>\<open>func (m middleware) ServeHTTP(rw, r) { m.handler.ServeHTTP(rw, r, m.nextfn) }\<close>\<close>

fun middleware_ServeHTTP :: "('w, 'q, 's) middleware \<Rightarrow> ('w, 'q, 's) http_HandlerFunc" where
  "middleware_ServeHTTP (Middleware h nf) =
     (\<lambda>rw r. Handler_ServeHTTP h rw r
        (case nf of None \<Rightarrow> nil_func | Some nx \<Rightarrow> middleware_ServeHTTP nx))"

text \<open>
  \<^verbatim>\<open>newMiddleware(handler, next)\<close>; every call site passes the address of a node, so
  \<open>next\<close> is the node pointed to.
\<close>

definition newMiddleware ::
  "('w, 'q, 's) Handler \<Rightarrow> ('w, 'q, 's) middleware \<Rightarrow> ('w, 'q, 's) middleware" where
  "newMiddleware h next = Middleware h (Some next)"

text \<open>
  \<^verbatim>\<open>voidMiddleware()\<close>: a handler with an empty body, and \<^verbatim>\<open>&middleware{}\<close> as the
  next node.
\<close>

definition voidMiddleware :: "('w, 'q, 's) middleware" where
  "voidMiddleware =
     newMiddleware (HandlerFunc (\<lambda>rw r next s. Inr s)) (Middleware NilHandler None)"

text \<open>
  \<^verbatim>\<open>build(handlers)\<close> reads its slice and writes nothing; it is a function of the
  elements the slice shows. The three equations are the three cases of the
  \<^verbatim>\<open>switch\<close>: length 0, length above 1, and the default (length 1).
\<close>

fun build :: "('w, 'q, 's) Handler list \<Rightarrow> ('w, 'q, 's) middleware" where
  "build [] = voidMiddleware"
| "build (h # h' # hs) = newMiddleware h (build (h' # hs))"
| "build [h] = newMiddleware h voidMiddleware"

subsection \<open>The pipeline\<close>

record ('w, 'q, 's) Negroni =
  middleware :: "('w, 'q, 's) middleware"
  handlers :: slice

text \<open>
  \<^verbatim>\<open>New(handlers...)\<close> takes the slice of its variadic arguments and keeps it (no
  copy). It allocates the struct and returns its address.
\<close>

definition New ::
  "slice \<Rightarrow> ('w, 'q, 's, ('w, 'q, 's) Negroni) store
     \<Rightarrow> nat \<times> ('w, 'q, 's, ('w, 'q, 's) Negroni) store" where
  "New hs \<sigma> =
     (length (objs \<sigma>),
      \<sigma>\<lparr>objs := objs \<sigma> @ [\<lparr>middleware = build (elems \<sigma> hs), handlers = hs\<rparr>]\<rparr>)"

text \<open>
  \<^verbatim>\<open>n.With(handlers...)\<close>: \<^verbatim>\<open>make\<close>, \<^verbatim>\<open>copy\<close>, \<^verbatim>\<open>append\<close>, \<^verbatim>\<open>New\<close>. Reading
  \<^verbatim>\<open>n.handlers\<close> through a pointer that addresses no struct panics.
\<close>

definition With ::
  "growth \<Rightarrow> nat \<Rightarrow> slice \<Rightarrow> ('w, 'q, 's, ('w, 'q, 's) Negroni) store
     \<Rightarrow> panic + nat \<times> ('w, 'q, 's, ('w, 'q, 's) Negroni) store" where
  "With grow n hs \<sigma> =
     (if length (objs \<sigma>) \<le> n then Inl NilDereference
      else
        (case make_slice (slen (handlers (objs \<sigma> ! n))) \<sigma> of
           (currentHandlers, \<sigma>1) \<Rightarrow>
             (let \<sigma>2 = copy_slice currentHandlers (handlers (objs \<sigma>1 ! n)) \<sigma>1
              in case append_slice grow currentHandlers (elems \<sigma>2 hs) \<sigma>2 of
                   (all, \<sigma>3) \<Rightarrow> Inr (New all \<sigma>3))))"

text \<open>
  \<^verbatim>\<open>n.Use(handler)\<close>: the nil check comes first; then the append, the assignment to
  \<^verbatim>\<open>n.handlers\<close>, and the assignment of the rebuilt chain to \<^verbatim>\<open>n.middleware\<close>.
\<close>

definition Use ::
  "growth \<Rightarrow> nat \<Rightarrow> ('w, 'q, 's) Handler \<Rightarrow> ('w, 'q, 's, ('w, 'q, 's) Negroni) store
     \<Rightarrow> panic + ('w, 'q, 's, ('w, 'q, 's) Negroni) store" where
  "Use grow n h \<sigma> =
     (case h of
        NilHandler \<Rightarrow> Inl (PanicMsg ''handler cannot be nil'')
      | HandlerFunc f \<Rightarrow>
          if length (objs \<sigma>) \<le> n then Inl NilDereference
          else
            (case append_slice grow (handlers (objs \<sigma> ! n)) [h] \<sigma> of
               (hs', \<sigma>1) \<Rightarrow>
                 (let \<sigma>2 = \<sigma>1\<lparr>objs := (objs \<sigma>1)[n := (objs \<sigma>1 ! n)\<lparr>handlers := hs'\<rparr>]\<rparr>
                  in Inr (\<sigma>2\<lparr>objs := (objs \<sigma>2)[n := (objs \<sigma>2 ! n)
                            \<lparr>middleware := build (elems \<sigma>2 (handlers (objs \<sigma>2 ! n)))\<rparr>]\<rparr>))))"

text \<open>\<^verbatim>\<open>n.Handlers()\<close> returns the slice header stored in the struct.\<close>

definition Handlers ::
  "nat \<Rightarrow> ('w, 'q, 's, ('w, 'q, 's) Negroni) store \<Rightarrow> panic + slice" where
  "Handlers n \<sigma> =
     (if length (objs \<sigma>) \<le> n then Inl NilDereference else Inr (handlers (objs \<sigma> ! n)))"

text \<open>
  \<^verbatim>\<open>n.ServeHTTP(rw, r)\<close>: \<^verbatim>\<open>n.middleware.ServeHTTP(NewResponseWriter(rw), r)\<close>.
  Handlers act on the state \<open>s\<close>; the store of the pipelines is read only.
\<close>

definition Negroni_ServeHTTP ::
  "('w, 's) sink_ops \<Rightarrow> nat \<Rightarrow> ('w, 'q, 's, ('w, 'q, 's) Negroni) store
     \<Rightarrow> ('w, 'q, 's) http_HandlerFunc" where
  "Negroni_ServeHTTP ops n \<sigma> rw r s =
     (if length (objs \<sigma>) \<le> n then Inl NilDereference
      else
        (case NewResponseWriter ops rw s of
           (w, s') \<Rightarrow> middleware_ServeHTTP (middleware (objs \<sigma> ! n)) w r s'))"

text \<open>
  \<^verbatim>\<open>detectAddress(addr...)\<close>, with the environment as a function from names to
  values (\<^verbatim>\<open>os.Getenv\<close> gives the empty string for an unset variable).
\<close>

definition DefaultAddress :: string where
  "DefaultAddress = '':8080''"

definition detectAddress :: "(string \<Rightarrow> string) \<Rightarrow> string list \<Rightarrow> string" where
  "detectAddress getenv addr =
     (if length addr > 0 then addr ! 0
      else (let port = getenv ''PORT''
            in if port \<noteq> '''' then '':'' @ port else DefaultAddress))"

text \<open>
  What \<^verbatim>\<open>Printf\<close> of a \<^verbatim>\<open>log.Logger\<close> with no flags writes: the prefix, the
  formatted message, and a newline when the message is empty or does not end in one.
\<close>

definition Logger_Printf :: "string \<Rightarrow> string \<Rightarrow> string" where
  "Logger_Printf prefix msg =
     prefix @ msg @ (if msg = [] \<or> last msg \<noteq> CHR 0x0A then [CHR 0x0A] else [])"

text \<open>
  \<^verbatim>\<open>n.Run(addr...)\<close> up to the call of \<^verbatim>\<open>http.ListenAndServe\<close>: the line it
  writes to standard output and the address it listens on.
\<close>

record run_effect =
  logged :: string
  listen_addr :: string

definition Run :: "(string \<Rightarrow> string) \<Rightarrow> string list \<Rightarrow> run_effect" where
  "Run getenv addr =
     (let finalAddr = detectAddress getenv addr
      in \<lparr>logged = Logger_Printf ''[negroni] '' (''listening on '' @ finalAddr),
          listen_addr = finalAddr\<rparr>)"

section \<open>src/negroni.go\<close>

subsection \<open>The chain\<close>

text \<open>
  Here \<^verbatim>\<open>middleware\<close> pairs a handler with a pointer to the next node. Nodes are never
  written after they are made, so the pointer is modelled by the node it points to, and
  \<open>None\<close> is the nil pointer.
\<close>

datatype ('w, 'q, 's) middleware_ngo =
  Middleware_ngo (handler_ngo: "('w, 'q, 's) Handler")
    (next_ngo: "('w, 'q, 's) middleware_ngo option")

text \<open>
  \<^verbatim>\<open>func (h middleware) ServeHTTP(rw, r)\<close>: the type assertion, the test of the
  written flag, and the call. Taking the method value \<^verbatim>\<open>h.next.ServeHTTP\<close> reads
  through \<^verbatim>\<open>h.next\<close> and panics when it is nil.
\<close>

fun middleware_ServeHTTP_ngo ::
  "('w, 's) sink_ops \<Rightarrow> ('w, 'q, 's) middleware_ngo \<Rightarrow> ('w, 'q, 's) http_HandlerFunc" where
  "middleware_ServeHTTP_ngo ops (Middleware_ngo h nx) =
     (\<lambda>rw r s.
        if \<not> isResponseWriter ops rw then Inl TypeAssertion
        else if Written ops rw s then Inr s
        else (case nx of
                None \<Rightarrow> Inl NilDereference
              | Some m \<Rightarrow> Handler_ServeHTTP h rw r (middleware_ServeHTTP_ngo ops m) s))"

text \<open>\<^verbatim>\<open>func voidHandler(rw, r, next) { /* do nothing */ }\<close>\<close>

definition voidHandler ::
  "'w \<Rightarrow> 'q \<Rightarrow> ('w, 'q, 's) http_HandlerFunc \<Rightarrow> 's \<Rightarrow> panic + 's" where
  "voidHandler rw r next s = Inr s"

text \<open>
  \<^verbatim>\<open>build(i, handlers)\<close>. \<^verbatim>\<open>handlers[i]\<close> panics unless \<open>0 \<le> i < len(handlers)\<close>.
  The index is a Go \<^verbatim>\<open>int\<close>; \<open>i + 1\<close> is computed only when \<open>i < len(handlers) - 1\<close>
  and cannot overflow. The function reads its slice and writes nothing.
\<close>

function build_ngo ::
  "int \<Rightarrow> ('w, 'q, 's) Handler list \<Rightarrow> panic + ('w, 'q, 's) middleware_ngo" where
  "build_ngo i hs =
     (if i < 0 \<or> int (length hs) \<le> i then Inl IndexOutOfRange
      else if i < int (length hs) - 1 then
        (case build_ngo (i + 1) hs of
           Inl e \<Rightarrow> Inl e
         | Inr next \<Rightarrow> Inr (Middleware_ngo (hs ! nat i) (Some next)))
      else
        Inr (Middleware_ngo (hs ! nat i)
               (Some (Middleware_ngo (HandlerFunc voidHandler)
                        (Some (Middleware_ngo NilHandler None))))))"
  by pat_completeness auto
termination
  by (relation "measure (\<lambda>(i, hs). nat (int (length hs) - i))") auto

declare build_ngo.simps [simp del]

subsection \<open>The pipeline\<close>

record ('w, 'q, 's) Negroni_ngo =
  middleware_ngo :: "('w, 'q, 's) middleware_ngo"
  handlers_ngo :: slice

text \<open>\<^verbatim>\<open>New()\<close>: the chain is written out; \<^verbatim>\<open>handlers\<close> is the nil slice.\<close>

definition New_ngo ::
  "('w, 'q, 's, ('w, 'q, 's) Negroni_ngo) store
     \<Rightarrow> nat \<times> ('w, 'q, 's, ('w, 'q, 's) Negroni_ngo) store" where
  "New_ngo \<sigma> =
     (length (objs \<sigma>),
      \<sigma>\<lparr>objs := objs \<sigma> @
           [\<lparr>middleware_ngo = Middleware_ngo (HandlerFunc voidHandler)
                                (Some (Middleware_ngo NilHandler None)),
             handlers_ngo = nil_slice\<rparr>]\<rparr>)"

text \<open>\<^verbatim>\<open>n.Use(handler)\<close>: append, then \<^verbatim>\<open>build(0, n.handlers)\<close>. No nil check.\<close>

definition Use_ngo ::
  "growth \<Rightarrow> nat \<Rightarrow> ('w, 'q, 's) Handler \<Rightarrow> ('w, 'q, 's, ('w, 'q, 's) Negroni_ngo) store
     \<Rightarrow> panic + ('w, 'q, 's, ('w, 'q, 's) Negroni_ngo) store" where
  "Use_ngo grow n h \<sigma> =
     (if length (objs \<sigma>) \<le> n then Inl NilDereference
      else
        (case append_slice grow (handlers_ngo (objs \<sigma> ! n)) [h] \<sigma> of
           (hs', \<sigma>1) \<Rightarrow>
             (let \<sigma>2 = \<sigma>1\<lparr>objs := (objs \<sigma>1)[n := (objs \<sigma>1 ! n)\<lparr>handlers_ngo := hs'\<rparr>]\<rparr>
              in case build_ngo 0 (elems \<sigma>2 (handlers_ngo (objs \<sigma>2 ! n))) of
                   Inl e \<Rightarrow> Inl e
                 | Inr m \<Rightarrow>
                     Inr (\<sigma>2\<lparr>objs := (objs \<sigma>2)[n := (objs \<sigma>2 ! n)\<lparr>middleware_ngo := m\<rparr>]\<rparr>))))"

text \<open>\<^verbatim>\<open>n.ServeHTTP(rw, r)\<close>, the same text as in the other file.\<close>

definition Negroni_ServeHTTP_ngo ::
  "('w, 's) sink_ops \<Rightarrow> nat \<Rightarrow> ('w, 'q, 's, ('w, 'q, 's) Negroni_ngo) store
     \<Rightarrow> ('w, 'q, 's) http_HandlerFunc" where
  "Negroni_ServeHTTP_ngo ops n \<sigma> rw r s =
     (if length (objs \<sigma>) \<le> n then Inl NilDereference
      else
        (case NewResponseWriter ops rw s of
           (w, s') \<Rightarrow> middleware_ServeHTTP_ngo ops (middleware_ngo (objs \<sigma> ! n)) w r s'))"

text \<open>
  \<^verbatim>\<open>n.Run()\<close> up to the call of \<^verbatim>\<open>http.ListenAndServe\<close>. It takes no address;
  it reads \<^verbatim>\<open>PORT\<close> (default \<^verbatim>\<open>"3000"\<close>) and \<^verbatim>\<open>HOST\<close>.
\<close>

definition Run_ngo :: "(string \<Rightarrow> string) \<Rightarrow> run_effect" where
  "Run_ngo getenv =
     (let port = getenv ''PORT'';
          port = (if port = '''' then ''3000'' else port);
          host = getenv ''HOST''
      in \<lparr>logged = Logger_Printf ''[negroni] ''
                      (''listening on '' @ host @ '':'' @ port @ [CHR 0x0A]),
          listen_addr = host @ '':'' @ port\<rparr>)"

section \<open>Notions the claims are stated with\<close>

subsection \<open>Handlers that invoke their continuation once, or not at all\<close>

text \<open>
  A handler that invokes its continuation exactly once, whatever the request and the
  state, has this shape: it does some work (\<open>before\<close>: it may change the state and
  choose the sink and the request it passes on), calls \<open>next\<close>, and finishes with the
  outcome of that call in hand (\<open>after\<close>: it sees the arguments and the state it was
  called with and whether \<open>next\<close> returned or panicked).
\<close>

type_synonym ('w, 'q, 's) before = "'w \<Rightarrow> 'q \<Rightarrow> 's \<Rightarrow> 'w \<times> 'q \<times> 's"
type_synonym ('w, 'q, 's) after = "'w \<Rightarrow> 'q \<Rightarrow> 's \<Rightarrow> panic + 's \<Rightarrow> panic + 's"

definition invokes_next_once ::
  "('w, 'q, 's) before \<times> ('w, 'q, 's) after \<Rightarrow> ('w, 'q, 's) Handler" where
  "invokes_next_once ba =
     HandlerFunc (\<lambda>rw r next s.
       case fst ba rw r s of (rw', r', s') \<Rightarrow> snd ba rw r s (next rw' r' s'))"

text \<open>A handler that never invokes its continuation: its outcome is that of its body.\<close>

definition withholds_next :: "('w, 'q, 's) http_HandlerFunc \<Rightarrow> ('w, 'q, 's) Handler" where
  "withholds_next body = HandlerFunc (\<lambda>rw r next s. body rw r s)"

text \<open>
  Visiting a list of such handlers in list order, as the spec describes a dispatch: the
  first handler's work before its continuation, then the rest of the list, then the
  first handler's work after. \<open>final\<close> is what runs behind the last handler of the list.
\<close>

fun visit_until ::
  "(('w, 'q, 's) before \<times> ('w, 'q, 's) after) list \<Rightarrow> ('w, 'q, 's) http_HandlerFunc
     \<Rightarrow> ('w, 'q, 's) http_HandlerFunc" where
  "visit_until [] final rw r s = final rw r s"
| "visit_until (ba # bas) final rw r s =
     (case fst ba rw r s of
        (rw', r', s') \<Rightarrow> snd ba rw r s (visit_until bas final rw' r' s'))"

definition visit_in_order ::
  "(('w, 'q, 's) before \<times> ('w, 'q, 's) after) list \<Rightarrow> ('w, 'q, 's) http_HandlerFunc" where
  "visit_in_order bas = visit_until bas (\<lambda>rw r s. Inr s)"

text \<open>
  The same visit through the nodes of \<^verbatim>\<open>src/negroni.go\<close>, where every node tests
  the sink before it invokes its handler.
\<close>

fun visit_until_ngo ::
  "('w, 's) sink_ops \<Rightarrow> (('w, 'q, 's) before \<times> ('w, 'q, 's) after) list
     \<Rightarrow> ('w, 'q, 's) http_HandlerFunc \<Rightarrow> ('w, 'q, 's) http_HandlerFunc" where
  "visit_until_ngo ops [] final rw r s = final rw r s"
| "visit_until_ngo ops (ba # bas) final rw r s =
     (if \<not> isResponseWriter ops rw then Inl TypeAssertion
      else if Written ops rw s then Inr s
      else (case fst ba rw r s of
              (rw', r', s') \<Rightarrow> snd ba rw r s (visit_until_ngo ops bas final rw' r' s')))"

text \<open>
  Along a visit in list order, every handler is reached with a sink that is a response
  writer and whose written flag is false, and the end of the list is reached with a
  response writer.
\<close>

fun unwritten_along ::
  "('w, 's) sink_ops \<Rightarrow> (('w, 'q, 's) before \<times> ('w, 'q, 's) after) list
     \<Rightarrow> 'w \<Rightarrow> 'q \<Rightarrow> 's \<Rightarrow> bool" where
  "unwritten_along ops [] rw r s = isResponseWriter ops rw"
| "unwritten_along ops (ba # bas) rw r s =
     (isResponseWriter ops rw \<and> \<not> Written ops rw s \<and>
      (case fst ba rw r s of (rw', r', s') \<Rightarrow> unwritten_along ops bas rw' r' s'))"

text \<open>
  The arguments with which what comes behind a list of such handlers is entered: each
  handler's work before its continuation chooses them for the next.
\<close>

fun entered ::
  "(('w, 'q, 's) before \<times> ('w, 'q, 's) after) list \<Rightarrow> 'w \<Rightarrow> 'q \<Rightarrow> 's \<Rightarrow> 'w \<times> 'q \<times> 's" where
  "entered [] rw r s = (rw, r, s)"
| "entered (ba # bas) rw r s = (case fst ba rw r s of (rw', r', s') \<Rightarrow> entered bas rw' r' s')"

text \<open>
  The same through the nodes of \<^verbatim>\<open>src/negroni.go\<close>: the handler behind the list is
  entered only when every node before it and its own node pass the test of the sink;
  \<open>None\<close> when a node on the way returns or panics instead.
\<close>

fun entered_ngo ::
  "('w, 's) sink_ops \<Rightarrow> (('w, 'q, 's) before \<times> ('w, 'q, 's) after) list
     \<Rightarrow> 'w \<Rightarrow> 'q \<Rightarrow> 's \<Rightarrow> ('w \<times> 'q \<times> 's) option" where
  "entered_ngo ops [] rw r s =
     (if isResponseWriter ops rw \<and> \<not> Written ops rw s then Some (rw, r, s) else None)"
| "entered_ngo ops (ba # bas) rw r s =
     (if isResponseWriter ops rw \<and> \<not> Written ops rw s
      then (case fst ba rw r s of (rw', r', s') \<Rightarrow> entered_ngo ops bas rw' r' s')
      else None)"

text \<open>
  A handler that, entered with these arguments, does not invoke its continuation: its
  outcome there is the same whatever continuation it is handed. On other arguments it
  may invoke it.
\<close>

definition skips_next :: "('w, 'q, 's) Handler \<Rightarrow> 'w \<Rightarrow> 'q \<Rightarrow> 's \<Rightarrow> bool" where
  "skips_next h rw r s =
     (\<forall>c c'. Handler_ServeHTTP h rw r c s = Handler_ServeHTTP h rw r c' s)"

text \<open>
  A handler that appends its name to a log (the state is the log) and invokes its
  continuation.
\<close>

definition logs_then_next :: "'a \<Rightarrow> ('w, 'q, 'a list) Handler" where
  "logs_then_next x = invokes_next_once ((\<lambda>rw r s. (rw, r, s @ [x])), (\<lambda>rw r s res. res))"

subsection \<open>The nodes of a chain\<close>

text \<open>
  The handlers of the nodes of a chain, head first. The chain ends at the zero value
  \<^verbatim>\<open>middleware{}\<close> (nil handler, nil next), which holds no handler and is not counted.
\<close>

fun nodes :: "('w, 'q, 's) middleware \<Rightarrow> ('w, 'q, 's) Handler list" where
  "nodes (Middleware h None) = (case h of NilHandler \<Rightarrow> [] | HandlerFunc f \<Rightarrow> [h])"
| "nodes (Middleware h (Some nx)) = h # nodes nx"

fun nodes_ngo :: "('w, 'q, 's) middleware_ngo \<Rightarrow> ('w, 'q, 's) Handler list" where
  "nodes_ngo (Middleware_ngo h None) = (case h of NilHandler \<Rightarrow> [] | HandlerFunc f \<Rightarrow> [h])"
| "nodes_ngo (Middleware_ngo h (Some nx)) = h # nodes_ngo nx"

text \<open>
  The sentinel that \<^verbatim>\<open>src/negroni.go\<close> writes out in \<^verbatim>\<open>New\<close> and in
  \<^verbatim>\<open>build\<close>, and the chain of a handler list that ends in it.
\<close>

definition sentinel_ngo :: "('w, 'q, 's) middleware_ngo" where
  "sentinel_ngo =
     Middleware_ngo (HandlerFunc voidHandler) (Some (Middleware_ngo NilHandler None))"

definition chain_ngo :: "('w, 'q, 's) Handler list \<Rightarrow> ('w, 'q, 's) middleware_ngo" where
  "chain_ngo hs = foldr (\<lambda>h m. Middleware_ngo h (Some m)) hs sentinel_ngo"

subsection \<open>Sequences of calls, and what a pipeline shows\<close>

text \<open>Appending the handlers of a list one at a time; a panic ends the sequence.\<close>

fun Use_all ::
  "growth \<Rightarrow> nat \<Rightarrow> ('w, 'q, 's) Handler list \<Rightarrow> ('w, 'q, 's, ('w, 'q, 's) Negroni) store
     \<Rightarrow> panic + ('w, 'q, 's, ('w, 'q, 's) Negroni) store" where
  "Use_all grow n [] \<sigma> = Inr \<sigma>"
| "Use_all grow n (h # hs) \<sigma> =
     (case Use grow n h \<sigma> of Inl e \<Rightarrow> Inl e | Inr \<sigma>' \<Rightarrow> Use_all grow n hs \<sigma>')"

fun Use_all_ngo ::
  "growth \<Rightarrow> nat \<Rightarrow> ('w, 'q, 's) Handler list
     \<Rightarrow> ('w, 'q, 's, ('w, 'q, 's) Negroni_ngo) store
     \<Rightarrow> panic + ('w, 'q, 's, ('w, 'q, 's) Negroni_ngo) store" where
  "Use_all_ngo grow n [] \<sigma> = Inr \<sigma>"
| "Use_all_ngo grow n (h # hs) \<sigma> =
     (case Use_ngo grow n h \<sigma> of Inl e \<Rightarrow> Inl e | Inr \<sigma>' \<Rightarrow> Use_all_ngo grow n hs \<sigma>')"

text \<open>
  The pipeline at address \<open>n\<close> exists, its slice is well formed and shows the list
  \<open>xs\<close>, and its chain is the chain of \<open>xs\<close> (the invariant of the spec's data model).
\<close>

definition shows_list ::
  "('w, 'q, 's, ('w, 'q, 's) Negroni) store \<Rightarrow> nat \<Rightarrow> ('w, 'q, 's) Handler list \<Rightarrow> bool" where
  "shows_list \<sigma> n xs =
     (n < length (objs \<sigma>) \<and> wf_slice \<sigma> (handlers (objs \<sigma> ! n)) \<and>
      elems \<sigma> (handlers (objs \<sigma> ! n)) = xs \<and> middleware (objs \<sigma> ! n) = build xs)"

text \<open>The store that \<^verbatim>\<open>Use\<close> leaves when it returns, in either file.\<close>

definition after_Use ::
  "growth \<Rightarrow> nat \<Rightarrow> ('w, 'q, 's) Handler \<Rightarrow> ('w, 'q, 's, ('w, 'q, 's) Negroni) store
     \<Rightarrow> ('w, 'q, 's, ('w, 'q, 's) Negroni) store" where
  "after_Use g n h \<sigma> =
     (let a = append_slice g (handlers (objs \<sigma> ! n)) [h] \<sigma>
      in (snd a)\<lparr>objs := (objs \<sigma>)[n := (objs \<sigma> ! n)
            \<lparr>handlers := fst a, middleware := build (elems (snd a) (fst a))\<rparr>]\<rparr>)"

definition after_Use_ngo ::
  "growth \<Rightarrow> nat \<Rightarrow> ('w, 'q, 's) Handler \<Rightarrow> ('w, 'q, 's, ('w, 'q, 's) Negroni_ngo) store
     \<Rightarrow> ('w, 'q, 's, ('w, 'q, 's) Negroni_ngo) store" where
  "after_Use_ngo g n h \<sigma> =
     (let a = append_slice g (handlers_ngo (objs \<sigma> ! n)) [h] \<sigma>
      in (snd a)\<lparr>objs := (objs \<sigma>)[n := (objs \<sigma> ! n)
            \<lparr>handlers_ngo := fst a, middleware_ngo := chain_ngo (elems (snd a) (fst a))\<rparr>]\<rparr>)"

text \<open>
  A slice \<open>snap\<close> handed out earlier lies behind the end of the slice \<open>cur\<close>: it is
  empty, or it lies within its backing array and, when \<open>cur\<close> shares that array, ends
  no later than \<open>cur\<close> does.
\<close>

definition behind :: "('w, 'q, 's, 'n) store \<Rightarrow> slice \<Rightarrow> slice \<Rightarrow> bool" where
  "behind \<sigma> snap cur =
     (slen snap = 0 \<or>
      (sptr snap < length (arrays \<sigma>) \<and>
       soff snap + slen snap \<le> length (arrays \<sigma> ! sptr snap) \<and>
       (sptr snap = sptr cur \<longrightarrow> soff snap + slen snap \<le> soff cur + slen cur)))"

subsection \<open>A response writer and handlers for concrete runs\<close>

text \<open>
  Modelled from the spec: the response-sink wrapper (the file that declares
  \<^verbatim>\<open>ResponseWriter\<close> and \<^verbatim>\<open>NewResponseWriter\<close> is not among the sources). A
  sink is a bare response surface or a wrapper; a wrapper has a written flag, false
  when it is made and set by the first write; wrapping leaves a wrapper as it is and
  makes a new wrapper for a bare surface; only a wrapper passes the type assertion. The
  state of the world holds the flags of the wrappers made so far and a trace that
  handlers write to.
\<close>

datatype sink = Surface nat | Wrapped nat

record world =
  flags :: "bool list"
  trace :: "string list"

definition spec_sinks :: "(sink, world) sink_ops" where
  "spec_sinks =
     \<lparr>NewResponseWriter =
        (\<lambda>rw s. case rw of
           Surface x \<Rightarrow> (Wrapped (length (flags s)), s\<lparr>flags := flags s @ [False]\<rparr>)
         | Wrapped a \<Rightarrow> (rw, s)),
      isResponseWriter = (\<lambda>rw. case rw of Surface x \<Rightarrow> False | Wrapped a \<Rightarrow> True),
      Written =
        (\<lambda>rw s. case rw of
           Surface x \<Rightarrow> False
         | Wrapped a \<Rightarrow> a < length (flags s) \<and> flags s ! a)\<rparr>"

definition sink_write :: "sink \<Rightarrow> world \<Rightarrow> world" where
  "sink_write rw s =
     (case rw of Surface x \<Rightarrow> s | Wrapped a \<Rightarrow> s\<lparr>flags := (flags s)[a := True]\<rparr>)"

text \<open>
  Handlers for concrete runs: one that adds its name to the trace and invokes its
  continuation, one that also writes to the sink first, and a body that adds its name
  to the trace (for a handler that withholds its continuation).
\<close>

definition traces :: "string \<Rightarrow> (sink, unit, world) before \<times> (sink, unit, world) after" where
  "traces x = ((\<lambda>rw r s. (rw, r, s\<lparr>trace := trace s @ [x]\<rparr>)), (\<lambda>rw r s res. res))"

definition writes :: "string \<Rightarrow> (sink, unit, world) before \<times> (sink, unit, world) after" where
  "writes x =
     ((\<lambda>rw r s. (rw, r, sink_write rw (s\<lparr>trace := trace s @ [x]\<rparr>))), (\<lambda>rw r s res. res))"

definition trace_only :: "string \<Rightarrow> (sink, unit, world) http_HandlerFunc" where
  "trace_only x = (\<lambda>rw r s. Inr (s\<lparr>trace := trace s @ [x]\<rparr>))"

text \<open>
  A handler that invokes its continuation only while the trace is empty; on a trace
  that holds an entry it adds \<open>stop\<close> and returns.
\<close>

definition gate :: "(sink, unit, world) Handler" where
  "gate = HandlerFunc (\<lambda>rw r next s.
            if trace s = [] then next rw r s else Inr (s\<lparr>trace := trace s @ [''stop'']\<rparr>))"

text \<open>A world with one wrapper, not yet written, and one with that wrapper written.\<close>

definition quiet :: world where
  "quiet = \<lparr>flags = [False], trace = []\<rparr>"

definition spoken :: world where
  "spoken = \<lparr>flags = [True], trace = []\<rparr>"

text \<open>The store with no arrays and no pipelines, and a growth policy (doubling).\<close>

definition empty_store :: "('w, 'q, 's, 'n) store" where
  "empty_store = \<lparr>arrays = [], objs = []\<rparr>"

definition doubling :: growth where
  "doubling oldcap need = 2 * oldcap"

subsection \<open>Pipelines and environments for concrete runs\<close>

text \<open>
  A handler that adds \<open>h\<close> to the trace and invokes its continuation, and three such
  handlers.
\<close>

definition one_handler :: "(sink, unit, world) Handler" where
  "one_handler = invokes_next_once (traces ''h'')"

definition three_handlers :: "(sink, unit, world) Handler list" where
  "three_handlers =
     [invokes_next_once (traces ''h1''), invokes_next_once (traces ''h2''),
      invokes_next_once (traces ''h3'')]"

text \<open>A handler that adds \<open>x\<close> to the trace and invokes its continuation.\<close>

definition other_handler :: "(sink, unit, world) Handler" where
  "other_handler = invokes_next_once (traces ''x'')"

text \<open>
  The stores right after \<^verbatim>\<open>New()\<close> on the empty store, in either file.
\<close>

definition before_h :: "(sink, unit, world, (sink, unit, world) Negroni) store" where
  "before_h = snd (New nil_slice empty_store)"

definition before_h_ngo :: "(sink, unit, world, (sink, unit, world) Negroni_ngo) store" where
  "before_h_ngo = snd (New_ngo empty_store)"

text \<open>
  The stores after one \<^verbatim>\<open>Use\<close> on such a pipeline: of \<open>one_handler\<close> in either
  file, and of the nil handler in \<^verbatim>\<open>src/negroni.go\<close>.
\<close>

definition pipeline_h :: "(sink, unit, world, (sink, unit, world) Negroni) store" where
  "pipeline_h =
     \<lparr>arrays = [[one_handler]],
      objs = [\<lparr>middleware = build [one_handler],
               handlers = \<lparr>sptr = 0, soff = 0, slen = 1, scap = 1\<rparr>\<rparr>]\<rparr>"

definition pipeline_h_ngo :: "(sink, unit, world, (sink, unit, world) Negroni_ngo) store" where
  "pipeline_h_ngo =
     \<lparr>arrays = [[one_handler]],
      objs = [\<lparr>middleware_ngo = chain_ngo [one_handler],
               handlers_ngo = \<lparr>sptr = 0, soff = 0, slen = 1, scap = 1\<rparr>\<rparr>]\<rparr>"

definition pipeline_nil_ngo :: "(sink, unit, world, (sink, unit, world) Negroni_ngo) store" where
  "pipeline_nil_ngo =
     \<lparr>arrays = [[NilHandler]],
      objs = [\<lparr>middleware_ngo = chain_ngo [NilHandler],
               handlers_ngo = \<lparr>sptr = 0, soff = 0, slen = 1, scap = 1\<rparr>\<rparr>]\<rparr>"

text \<open>
  A store that holds the three handlers in one backing array, and the store after
  \<^verbatim>\<open>New\<close> on the slice of that array.
\<close>

definition three_in_array :: "(sink, unit, world, (sink, unit, world) Negroni) store" where
  "three_in_array = \<lparr>arrays = [three_handlers], objs = []\<rparr>"

definition three_at_once :: "(sink, unit, world, (sink, unit, world) Negroni) store" where
  "three_at_once = snd (New \<lparr>sptr = 0, soff = 0, slen = 3, scap = 3\<rparr> three_in_array)"

text \<open>
  A store that holds the nil handler in a backing array of one cell, and the store
  after \<^verbatim>\<open>New\<close> on the slice of that array (\<^verbatim>\<open>New(nil)\<close>).
\<close>

definition nil_in_array :: "(sink, unit, world, (sink, unit, world) Negroni) store" where
  "nil_in_array = \<lparr>arrays = [[NilHandler]], objs = []\<rparr>"

definition nil_at_once :: "(sink, unit, world, (sink, unit, world) Negroni) store" where
  "nil_at_once = snd (New \<lparr>sptr = 0, soff = 0, slen = 1, scap = 1\<rparr> nil_in_array)"

text \<open>
  The store after \<^verbatim>\<open>With\<close> on \<open>pipeline_h\<close> with the pipeline's own handlers as the
  additional ones.
\<close>

definition derived_h :: "(sink, unit, world, (sink, unit, world) Negroni) store" where
  "derived_h =
     \<lparr>arrays = [[one_handler], [one_handler], [one_handler, one_handler]],
      objs = [\<lparr>middleware = build [one_handler],
               handlers = \<lparr>sptr = 0, soff = 0, slen = 1, scap = 1\<rparr>\<rparr>,
              \<lparr>middleware = build [one_handler, one_handler],
               handlers = \<lparr>sptr = 2, soff = 0, slen = 2, scap = 2\<rparr>\<rparr>]\<rparr>"

text \<open>
  The store after three calls of \<^verbatim>\<open>Use\<close> under the doubling policy (the slice has
  length 3 and capacity 4), and after a fourth call, which writes into the same backing
  array.
\<close>

definition three_used :: "(sink, unit, world, (sink, unit, world) Negroni) store" where
  "three_used =
     \<lparr>arrays = [take 1 three_handlers, take 2 three_handlers, three_handlers @ [NilHandler]],
      objs = [\<lparr>middleware = build three_handlers,
               handlers = \<lparr>sptr = 2, soff = 0, slen = 3, scap = 4\<rparr>\<rparr>]\<rparr>"

definition four_used :: "(sink, unit, world, (sink, unit, world) Negroni) store" where
  "four_used =
     \<lparr>arrays = [take 1 three_handlers, take 2 three_handlers, three_handlers @ [one_handler]],
      objs = [\<lparr>middleware = build (three_handlers @ [one_handler]),
               handlers = \<lparr>sptr = 2, soff = 0, slen = 4, scap = 4\<rparr>\<rparr>]\<rparr>"

text \<open>
  Two pipelines that share a backing array. \<open>two_share\<close> is the store after
  \<^verbatim>\<open>q := New(p.Handlers()...)\<close> on \<open>three_used\<close>: \<open>q\<close> (at address 1) holds the
  slice of \<open>p\<close> (at address 0), of length 3 and capacity 4. \<open>two_share_p_used\<close> is the
  store after \<^verbatim>\<open>p.Use\<close> of \<open>one_handler\<close>, and \<open>two_share_q_used\<close> the store after
  \<^verbatim>\<open>q.Use\<close> of \<open>other_handler\<close> on that; both calls write the fourth cell of the
  shared array.
\<close>

definition two_share :: "(sink, unit, world, (sink, unit, world) Negroni) store" where
  "two_share =
     \<lparr>arrays = [take 1 three_handlers, take 2 three_handlers, three_handlers @ [NilHandler]],
      objs = [\<lparr>middleware = build three_handlers,
               handlers = \<lparr>sptr = 2, soff = 0, slen = 3, scap = 4\<rparr>\<rparr>,
              \<lparr>middleware = build three_handlers,
               handlers = \<lparr>sptr = 2, soff = 0, slen = 3, scap = 4\<rparr>\<rparr>]\<rparr>"

definition two_share_p_used :: "(sink, unit, world, (sink, unit, world) Negroni) store" where
  "two_share_p_used =
     \<lparr>arrays = [take 1 three_handlers, take 2 three_handlers, three_handlers @ [one_handler]],
      objs = [\<lparr>middleware = build (three_handlers @ [one_handler]),
               handlers = \<lparr>sptr = 2, soff = 0, slen = 4, scap = 4\<rparr>\<rparr>,
              \<lparr>middleware = build three_handlers,
               handlers = \<lparr>sptr = 2, soff = 0, slen = 3, scap = 4\<rparr>\<rparr>]\<rparr>"

definition two_share_q_used :: "(sink, unit, world, (sink, unit, world) Negroni) store" where
  "two_share_q_used =
     \<lparr>arrays = [take 1 three_handlers, take 2 three_handlers, three_handlers @ [other_handler]],
      objs = [\<lparr>middleware = build (three_handlers @ [one_handler]),
               handlers = \<lparr>sptr = 2, soff = 0, slen = 4, scap = 4\<rparr>\<rparr>,
              \<lparr>middleware = build (three_handlers @ [other_handler]),
               handlers = \<lparr>sptr = 2, soff = 0, slen = 4, scap = 4\<rparr>\<rparr>]\<rparr>"

text \<open>
  Three environments: \<^verbatim>\<open>PORT\<close> and \<^verbatim>\<open>HOST\<close> set, only \<^verbatim>\<open>PORT\<close> set, nothing
  set.
\<close>

definition host_and_port :: "string \<Rightarrow> string" where
  "host_and_port name =
     (if name = ''PORT'' then ''80'' else if name = ''HOST'' then ''localhost'' else '''')"

definition port_only :: "string \<Rightarrow> string" where
  "port_only name = (if name = ''PORT'' then ''80'' else '''')"

definition no_env :: "string \<Rightarrow> string" where
  "no_env name = ''''"

section \<open>Lemmas\<close>

subsection \<open>The chain of src/unnamed/part_000\<close>

lemma build_Nil: "build [] = voidMiddleware"
  by simp

lemma build_Cons: "build (h # hs) = newMiddleware h (build hs)"
  by (cases hs) simp_all

lemma build_foldr: "build hs = foldr newMiddleware hs voidMiddleware"
  by (induction hs) (simp_all add: build_Nil build_Cons del: build.simps)

lemma nodes_void: "nodes (voidMiddleware :: ('w,'q,'s) middleware) = [HandlerFunc (\<lambda>rw r next s. Inr s)]"
  by (simp add: voidMiddleware_def newMiddleware_def)

lemma nodes_build: "nodes (build hs) = hs @ [HandlerFunc (\<lambda>rw r next s. Inr s)]"
  by (induction hs) (simp_all add: build_Nil build_Cons nodes_void newMiddleware_def del: build.simps)

lemma serve_void: "middleware_ServeHTTP voidMiddleware rw r s = Inr s"
  by (simp add: voidMiddleware_def newMiddleware_def)

lemma serve_new: "middleware_ServeHTTP (newMiddleware h m) rw r s = Handler_ServeHTTP h rw r (middleware_ServeHTTP m) s"
  by (simp add: newMiddleware_def)

lemma serve_build_until:
  "middleware_ServeHTTP (build (map invokes_next_once bas @ hs)) rw r s
     = visit_until bas (middleware_ServeHTTP (build hs)) rw r s"
  by (induction bas arbitrary: rw r s)
     (simp_all add: build_Nil build_Cons serve_new invokes_next_once_def split: prod.splits del: build.simps)

lemma serve_build_in_order:
  "middleware_ServeHTTP (build (map invokes_next_once bas)) = visit_in_order bas"
  proof -
  have "middleware_ServeHTTP (voidMiddleware :: ('a, 'b, 'c) middleware) = (\<lambda>rw r s. Inr s)"
    by (simp add: fun_eq_iff serve_void)
  then have v: "visit_until bas (middleware_ServeHTTP voidMiddleware) = visit_in_order bas"
    by (simp only: visit_in_order_def)
  show ?thesis
  proof (intro ext)
    fix rw r s
    show "middleware_ServeHTTP (build (map invokes_next_once bas)) rw r s = visit_in_order bas rw r s"
      using serve_build_until[of bas "[]" rw r s] by (simp only: v append_Nil2 build_Nil)
  qed
qed

lemma serve_logs: "middleware_ServeHTTP (build (map logs_then_next xs)) rw r s = Inr (s @ xs)"
  by (induction xs arbitrary: s)
     (simp_all add: build_Nil build_Cons serve_new serve_void logs_then_next_def invokes_next_once_def del: build.simps)

lemma serve_withholds:
  "middleware_ServeHTTP (build (withholds_next body # rest)) = body"
  by (simp add: fun_eq_iff build_Cons serve_new withholds_next_def del: build.simps)

lemma serve_build_prefix:
  "middleware_ServeHTTP (build ys) = middleware_ServeHTTP (build ys') \<Longrightarrow>
   middleware_ServeHTTP (build (pre @ ys)) = middleware_ServeHTTP (build (pre @ ys'))"
proof (induction pre)
  case Nil
  then show ?case by simp
next
  case (Cons h pre)
  from Cons.IH[OF Cons.prems]
  have "\<And>rw r s. middleware_ServeHTTP (build ((h # pre) @ ys)) rw r s =
          middleware_ServeHTTP (build ((h # pre) @ ys')) rw r s"
    by (simp add: build_Cons serve_new del: build.simps)
  then show ?case by (intro ext)
qed

lemma visit_until_cong:
  "(case entered bas rw r s of (rw', r', s') \<Rightarrow> f rw' r' s' = g rw' r' s') \<Longrightarrow>
   visit_until bas f rw r s = visit_until bas g rw r s"
  by (induction bas arbitrary: rw r s) (auto split: prod.splits)

lemma serve_build_Cons:
  "middleware_ServeHTTP (build (h # hs)) =
     (\<lambda>rw r s. Handler_ServeHTTP h rw r (middleware_ServeHTTP (build hs)) s)"
  by (intro ext) (simp add: build_Cons serve_new del: build.simps)

lemma serve_build_skips:
  assumes "case entered bas rw r s of (rw', r', s') \<Rightarrow> skips_next hk rw' r' s'"
  shows "middleware_ServeHTTP (build (map invokes_next_once bas @ hk # rest)) rw r s =
           visit_until bas (\<lambda>rw r s. Handler_ServeHTTP hk rw r cont s) rw r s"
proof -
  from assms
  have "case entered bas rw r s of (rw', r', s') \<Rightarrow>
          Handler_ServeHTTP hk rw' r' (middleware_ServeHTTP (build rest)) s' =
          Handler_ServeHTTP hk rw' r' cont s'"
    by (auto simp: skips_next_def split: prod.splits)
  from visit_until_cong[where
      f = "\<lambda>rw r s. Handler_ServeHTTP hk rw r (middleware_ServeHTTP (build rest)) s"
      and g = "\<lambda>rw r s. Handler_ServeHTTP hk rw r cont s", OF this]
  show ?thesis
    by (simp only: serve_build_until serve_build_Cons)
qed

subsection \<open>The chain of src/negroni.go\<close>

lemma build_ngo_out_of_range:
  "i < 0 \<or> int (length hs) \<le> i \<Longrightarrow> build_ngo i hs = Inl IndexOutOfRange"
  by (subst build_ngo.simps) simp

lemma build_ngo_drop:
  "i < length hs \<Longrightarrow> build_ngo (int i) hs = Inr (chain_ngo (drop i hs))"
proof (induction "length hs - i" arbitrary: i)
  case 0
  then show ?case by simp
next
  case (Suc k)
  show ?case
  proof (cases "Suc i < length hs")
    case True
    have "k = length hs - Suc i" using Suc.hyps(2) by simp
    from Suc.hyps(1)[OF this True]
    have IH: "build_ngo (int i + 1) hs = Inr (chain_ngo (drop (Suc i) hs))"
      by (simp add: add.commute)
    have "drop i hs = hs ! i # drop (Suc i) hs"
      using Suc.prems by (simp add: Cons_nth_drop_Suc)
    with IH True show ?thesis
      by (subst build_ngo.simps) (simp add: chain_ngo_def)
  next
    case False
    with Suc.prems have "drop i hs = [hs ! i]"
      by (metis Cons_nth_drop_Suc drop_all not_less)
    with False Suc.prems show ?thesis
      by (subst build_ngo.simps) (simp add: chain_ngo_def sentinel_ngo_def)
  qed
qed

lemma build_ngo_0: "hs \<noteq> [] \<Longrightarrow> build_ngo 0 hs = Inr (chain_ngo hs)"
  using build_ngo_drop[of 0 hs] by simp

lemma build_ngo_in_range:
  assumes "0 \<le> i" "i < int (length hs)"
  shows "build_ngo i hs = Inr (chain_ngo (drop (nat i) hs))"
  using build_ngo_drop[of "nat i" hs] assms by simp

lemma nodes_chain_ngo: "nodes_ngo (chain_ngo hs) = hs @ [HandlerFunc voidHandler]"
  by (induction hs) (simp_all add: chain_ngo_def sentinel_ngo_def)

lemma chain_ngo_Cons: "chain_ngo (h # hs) = Middleware_ngo h (Some (chain_ngo hs))"
  by (simp add: chain_ngo_def)

lemma serve_sentinel_ngo:
  "middleware_ServeHTTP_ngo ops sentinel_ngo rw r s =
     (if isResponseWriter ops rw then Inr s else Inl TypeAssertion)"
  by (simp add: sentinel_ngo_def voidHandler_def)

lemma serve_chain_ngo_until:
  "middleware_ServeHTTP_ngo ops (chain_ngo (map invokes_next_once bas @ hs)) rw r s
     = visit_until_ngo ops bas (middleware_ServeHTTP_ngo ops (chain_ngo hs)) rw r s"
  by (induction bas arbitrary: rw r s)
     (simp_all add: chain_ngo_Cons invokes_next_once_def split: prod.splits)

lemma serve_withholds_ngo:
  "middleware_ServeHTTP_ngo ops (chain_ngo (withholds_next body # rest)) =
     (\<lambda>rw r s. if \<not> isResponseWriter ops rw then Inl TypeAssertion
               else if Written ops rw s then Inr s else body rw r s)"
  by (simp add: fun_eq_iff chain_ngo_Cons withholds_next_def)

lemma serve_chain_ngo_prefix:
  "middleware_ServeHTTP_ngo ops (chain_ngo ys) = middleware_ServeHTTP_ngo ops (chain_ngo ys') \<Longrightarrow>
   middleware_ServeHTTP_ngo ops (chain_ngo (pre @ ys)) =
     middleware_ServeHTTP_ngo ops (chain_ngo (pre @ ys'))"
proof (induction pre)
  case Nil
  then show ?case by simp
next
  case (Cons h pre)
  from Cons.IH[OF Cons.prems]
  have "\<And>rw r s. middleware_ServeHTTP_ngo ops (chain_ngo ((h # pre) @ ys)) rw r s =
          middleware_ServeHTTP_ngo ops (chain_ngo ((h # pre) @ ys')) rw r s"
    by (simp add: chain_ngo_Cons)
  then show ?case by (intro ext)
qed

lemma visit_unwritten:
  "unwritten_along ops bas rw r s \<Longrightarrow>
   visit_until_ngo ops bas (middleware_ServeHTTP_ngo ops sentinel_ngo) rw r s = visit_in_order bas rw r s"
  by (induction bas arbitrary: rw r s)
     (auto simp: visit_in_order_def serve_sentinel_ngo split: prod.splits)

lemma visit_until_ngo_cong:
  "(case entered_ngo ops bas rw r s of None \<Rightarrow> True
    | Some (rw', r', s') \<Rightarrow> f rw' r' s' = g rw' r' s') \<Longrightarrow>
   visit_until_ngo ops bas
     (\<lambda>rw r s. if \<not> isResponseWriter ops rw then Inl TypeAssertion
               else if Written ops rw s then Inr s else f rw r s) rw r s =
   visit_until_ngo ops bas
     (\<lambda>rw r s. if \<not> isResponseWriter ops rw then Inl TypeAssertion
               else if Written ops rw s then Inr s else g rw r s) rw r s"
  by (induction bas arbitrary: rw r s) (auto split: prod.splits)

lemma serve_chain_ngo_Cons:
  "middleware_ServeHTTP_ngo ops (chain_ngo (h # hs)) =
     (\<lambda>rw r s. if \<not> isResponseWriter ops rw then Inl TypeAssertion
               else if Written ops rw s then Inr s
               else Handler_ServeHTTP h rw r (middleware_ServeHTTP_ngo ops (chain_ngo hs)) s)"
  by (intro ext) (simp add: chain_ngo_Cons)

lemma serve_chain_ngo_skips:
  assumes "case entered_ngo ops bas rw r s of None \<Rightarrow> True
           | Some (rw', r', s') \<Rightarrow> skips_next hk rw' r' s'"
  shows "middleware_ServeHTTP_ngo ops (chain_ngo (map invokes_next_once bas @ hk # rest)) rw r s =
           visit_until_ngo ops bas
             (\<lambda>rw r s. if \<not> isResponseWriter ops rw then Inl TypeAssertion
                       else if Written ops rw s then Inr s
                       else Handler_ServeHTTP hk rw r cont s) rw r s"
proof -
  from assms
  have "case entered_ngo ops bas rw r s of None \<Rightarrow> True
        | Some (rw', r', s') \<Rightarrow>
          Handler_ServeHTTP hk rw' r' (middleware_ServeHTTP_ngo ops (chain_ngo rest)) s' =
          Handler_ServeHTTP hk rw' r' cont s'"
    by (auto simp: skips_next_def split: prod.splits option.splits)
  from visit_until_ngo_cong[where
      f = "\<lambda>rw r s. Handler_ServeHTTP hk rw r (middleware_ServeHTTP_ngo ops (chain_ngo rest)) s"
      and g = "\<lambda>rw r s. Handler_ServeHTTP hk rw r cont s", OF this]
  show ?thesis
    by (simp only: serve_chain_ngo_until serve_chain_ngo_Cons)
qed

subsection \<open>Slices\<close>

lemma length_write_at:
  "i + length xs \<le> length arr \<Longrightarrow> length (write_at arr i xs) = length arr"
  by (simp add: write_at_def)

lemma write_at_Nil: "i \<le> length arr \<Longrightarrow> write_at arr i [] = arr"
  by (simp add: write_at_def)

lemma window_before_write:
  "off + l \<le> i \<Longrightarrow> i \<le> length arr \<Longrightarrow>
   take l (drop off (write_at arr i xs)) = take l (drop off arr)"
proof -
  assume a: "off + l \<le> i" "i \<le> length arr"
  then have "take l (drop off (write_at arr i xs)) = take l (drop off (take i arr))"
    by (simp add: write_at_def)
  also have "\<dots> = take l (drop off arr)"
    using a by (simp add: drop_take min_absorb1)
  finally show ?thesis .
qed

lemma window_with_write:
  "off + l + length xs \<le> length arr \<Longrightarrow>
   take (l + length xs) (drop off (write_at arr (off + l) xs)) = take l (drop off arr) @ xs"
  by (simp add: write_at_def take_add)

lemma elems_length: "wf_slice \<sigma> sl \<Longrightarrow> length (elems \<sigma> sl) = slen sl"
  by (auto simp: wf_slice_def elems_def)

lemma elems_cong: "arrays \<sigma> = arrays \<tau> \<Longrightarrow> elems \<sigma> sl = elems \<tau> sl"
  by (simp add: elems_def)

lemma wf_slice_cong: "arrays \<sigma> = arrays \<tau> \<Longrightarrow> wf_slice \<sigma> sl = wf_slice \<tau> sl"
  by (simp add: wf_slice_def)

lemma wf_nil_slice: "wf_slice \<sigma> nil_slice"
  by (simp add: wf_slice_def nil_slice_def)

lemma elems_nil_slice: "elems \<sigma> nil_slice = []"
  by (simp add: elems_def nil_slice_def)

lemma elems_prefix:
  assumes "take (length (arrays \<sigma>)) (arrays \<tau>) = arrays \<sigma>" "wf_slice \<sigma> sl"
  shows "elems \<tau> sl = elems \<sigma> sl"
proof (cases "scap sl = 0")
  case True
  with assms(2) show ?thesis by (simp add: elems_def wf_slice_def)
next
  case False
  with assms(2) have "sptr sl < length (arrays \<sigma>)" by (simp add: wf_slice_def)
  then have "arrays \<tau> ! sptr sl = arrays \<sigma> ! sptr sl"
    using assms(1) by (metis nth_take)
  then show ?thesis by (simp add: elems_def)
qed

lemma append_slice_objs: "objs (snd (append_slice g sl xs \<sigma>)) = objs \<sigma>"
  by (simp add: append_slice_def Let_def)

lemma append_slice_wf:
  assumes "wf_slice \<sigma> sl"
  shows "wf_slice (snd (append_slice g sl xs \<sigma>)) (fst (append_slice g sl xs \<sigma>))"
  using assms elems_length[OF assms]
  by (auto simp: append_slice_def Let_def wf_slice_def length_write_at nth_append)

lemma append_slice_elems:
  assumes "wf_slice \<sigma> sl"
  shows "elems (snd (append_slice g sl xs \<sigma>)) (fst (append_slice g sl xs \<sigma>)) = elems \<sigma> sl @ xs"
proof (cases "slen sl + length xs \<le> scap sl")
  case True
  show ?thesis
  proof (cases "xs = []")
    case True
    with assms show ?thesis
      by (cases "sptr sl < length (arrays \<sigma>)")
         (auto simp: append_slice_def elems_def wf_slice_def write_at_Nil)
  next
    case False
    with True assms have b: "sptr sl < length (arrays \<sigma>)"
      "soff sl + slen sl + length xs \<le> length (arrays \<sigma> ! sptr sl)"
      by (auto simp: wf_slice_def)
    with True show ?thesis
      by (simp add: append_slice_def elems_def window_with_write)
  qed
next
  case False
  with elems_length[OF assms] show ?thesis
    by (simp add: append_slice_def Let_def elems_def)
qed

lemma append_slice_keeps_window:
  assumes "wf_slice \<sigma> sl"
  shows "elems (snd (append_slice g sl xs \<sigma>)) sl = elems \<sigma> sl"
proof (cases "slen sl + length xs \<le> scap sl")
  case True
  show ?thesis
  proof (cases "sptr sl < length (arrays \<sigma>)")
    case True
    with assms \<open>slen sl + length xs \<le> scap sl\<close> show ?thesis
      by (cases "scap sl = 0") (auto simp: append_slice_def elems_def wf_slice_def window_before_write)
  next
    case False
    with assms True show ?thesis
      by (auto simp: append_slice_def elems_def wf_slice_def)
  qed
next
  case False
  with assms show ?thesis
    by (cases "scap sl = 0") (auto simp: append_slice_def Let_def elems_def wf_slice_def nth_append)
qed

lemma append_slice_prefix:
  "L \<le> sptr sl \<Longrightarrow> L \<le> length (arrays \<sigma>) \<Longrightarrow>
   take L (arrays (snd (append_slice g sl xs \<sigma>))) = take L (arrays \<sigma>)"
  by (simp add: append_slice_def Let_def)

lemma append_slice_sptr:
  "L \<le> sptr sl \<Longrightarrow> L \<le> length (arrays \<sigma>) \<Longrightarrow> L \<le> sptr (fst (append_slice g sl xs \<sigma>))"
  by (simp add: append_slice_def Let_def)

lemma append_slice_length:
  "length (arrays \<sigma>) \<le> length (arrays (snd (append_slice g sl xs \<sigma>)))"
  by (simp add: append_slice_def Let_def)

lemma behind_self: "wf_slice \<sigma> sl \<Longrightarrow> behind \<sigma> sl sl"
  by (auto simp: behind_def wf_slice_def)

lemma behind_cong: "arrays \<sigma> = arrays \<tau> \<Longrightarrow> behind \<sigma> a b = behind \<tau> a b"
  by (simp add: behind_def)

lemma append_slice_behind:
  assumes wf: "wf_slice \<sigma> cur" and b: "behind \<sigma> snap cur"
  shows "behind (snd (append_slice g cur xs \<sigma>)) snap (fst (append_slice g cur xs \<sigma>)) \<and>
         elems (snd (append_slice g cur xs \<sigma>)) snap = elems \<sigma> snap"
proof (cases "slen snap = 0 \<or> xs = []")
  case True
  then show ?thesis
  proof
    assume "slen snap = 0"
    then show ?thesis by (simp add: behind_def elems_def)
  next
    assume "xs = []"
    moreover have "slen cur \<le> scap cur" using wf by (simp add: wf_slice_def)
    ultimately have "append_slice g cur xs \<sigma> = (cur, \<sigma>)"
      by (simp add: append_slice_def write_at_def)
    with b show ?thesis by simp
  qed
next
  case ne: False
  with b have s: "sptr snap < length (arrays \<sigma>)"
    "soff snap + slen snap \<le> length (arrays \<sigma> ! sptr snap)"
    "sptr snap = sptr cur \<longrightarrow> soff snap + slen snap \<le> soff cur + slen cur"
    by (simp_all add: behind_def)
  show ?thesis
  proof (cases "slen cur + length xs \<le> scap cur")
    case inplace: True
    show ?thesis
    proof (cases "sptr snap = sptr cur")
      case True
      with s wf inplace ne have w: "soff cur + slen cur \<le> length (arrays \<sigma> ! sptr cur)"
        "soff cur + slen cur + length xs \<le> length (arrays \<sigma> ! sptr cur)"
        by (auto simp: wf_slice_def)
      from True s w inplace show ?thesis
        by (simp add: append_slice_def behind_def elems_def window_before_write length_write_at)
    next
      case False
      with s inplace show ?thesis
        by (simp add: append_slice_def behind_def elems_def)
    qed
  next
    case False
    with s show ?thesis
      by (simp add: append_slice_def Let_def behind_def elems_def nth_append)
  qed
qed

subsection \<open>Use and New\<close>

lemma Use_nil: "Use g n NilHandler \<sigma> = Inl (PanicMsg ''handler cannot be nil'')"
  by (simp add: Use_def)

lemma Use_eq:
  "n < length (objs \<sigma>) \<Longrightarrow> Use g n (HandlerFunc f) \<sigma> = Inr (after_Use g n (HandlerFunc f) \<sigma>)"
  by (simp add: Use_def after_Use_def Let_def append_slice_objs[of g _ _ \<sigma>, simplified]
        split: prod.splits)
     (auto simp: append_slice_def Let_def elems_def split: if_splits)

lemma after_Use_length: "length (objs (after_Use g n h \<sigma>)) = length (objs \<sigma>)"
  by (simp add: after_Use_def Let_def)

lemma after_Use_other:
  "m \<noteq> n \<Longrightarrow> objs (after_Use g n h \<sigma>) ! m = objs \<sigma> ! m"
  by (simp add: after_Use_def Let_def)

lemma after_Use_arrays:
  "arrays (after_Use g n h \<sigma>) = arrays (snd (append_slice g (handlers (objs \<sigma> ! n)) [h] \<sigma>))"
  by (simp add: after_Use_def Let_def)

lemma after_Use_handlers:
  "n < length (objs \<sigma>) \<Longrightarrow>
   handlers (objs (after_Use g n h \<sigma>) ! n) = fst (append_slice g (handlers (objs \<sigma> ! n)) [h] \<sigma>)"
  by (simp add: after_Use_def Let_def)

lemma after_Use_middleware:
  "n < length (objs \<sigma>) \<Longrightarrow>
   middleware (objs (after_Use g n h \<sigma>) ! n) =
     build (elems (after_Use g n h \<sigma>) (handlers (objs (after_Use g n h \<sigma>) ! n)))"
  by (simp add: after_Use_def Let_def elems_def)

lemma after_Use_elems:
  assumes "n < length (objs \<sigma>)" "wf_slice \<sigma> (handlers (objs \<sigma> ! n))"
  shows "elems (after_Use g n h \<sigma>) (handlers (objs (after_Use g n h \<sigma>) ! n))
           = elems \<sigma> (handlers (objs \<sigma> ! n)) @ [h]"
  using append_slice_elems[OF assms(2), of g "[h]"] assms(1)
  by (simp add: after_Use_handlers elems_cong[OF after_Use_arrays])

lemma after_Use_wf:
  assumes "n < length (objs \<sigma>)" "wf_slice \<sigma> (handlers (objs \<sigma> ! n))"
  shows "wf_slice (after_Use g n h \<sigma>) (handlers (objs (after_Use g n h \<sigma>) ! n))"
  using append_slice_wf[OF assms(2), of g "[h]"] assms(1)
  by (simp add: after_Use_handlers wf_slice_cong[OF after_Use_arrays])

lemma after_Use_snapshot:
  assumes "wf_slice \<sigma> (handlers (objs \<sigma> ! n))"
  shows "elems (after_Use g n h \<sigma>) (handlers (objs \<sigma> ! n)) = elems \<sigma> (handlers (objs \<sigma> ! n))"
  using append_slice_keeps_window[OF assms, of g "[h]"]
  by (simp add: elems_cong[OF after_Use_arrays])

lemma after_Use_prefix:
  "L \<le> sptr (handlers (objs \<sigma> ! n)) \<Longrightarrow> L \<le> length (arrays \<sigma>) \<Longrightarrow>
   take L (arrays (after_Use g n h \<sigma>)) = take L (arrays \<sigma>)"
  by (simp add: after_Use_arrays append_slice_prefix)

lemma shows_list_Use:
  assumes "shows_list \<sigma> n xs"
  shows "shows_list (after_Use g n h \<sigma>) n (xs @ [h])"
proof -
  from assms have n: "n < length (objs \<sigma>)" and wf: "wf_slice \<sigma> (handlers (objs \<sigma> ! n))"
    and e: "elems \<sigma> (handlers (objs \<sigma> ! n)) = xs"
    by (simp_all add: shows_list_def)
  show ?thesis
    unfolding shows_list_def
    using after_Use_elems[OF n wf, of g h] after_Use_wf[OF n wf, of g h]
      after_Use_middleware[OF n, of g h] n e
    by (simp add: after_Use_length)
qed

lemma Use_all_shows:
  "shows_list \<sigma> n xs \<Longrightarrow> NilHandler \<notin> set hs \<Longrightarrow>
   \<exists>\<sigma>'. Use_all g n hs \<sigma> = Inr \<sigma>' \<and> shows_list \<sigma>' n (xs @ hs)"
proof (induction hs arbitrary: \<sigma> xs)
  case Nil
  then show ?case by simp
next
  case (Cons h hs)
  from Cons.prems(2) obtain f where h: "h = HandlerFunc f"
    by (cases h) auto
  from Cons.prems(1) have n: "n < length (objs \<sigma>)"
    by (simp add: shows_list_def)
  have u: "Use g n h \<sigma> = Inr (after_Use g n h \<sigma>)"
    using Use_eq[OF n] h by simp
  from Cons.prems(2) have "NilHandler \<notin> set hs" by simp
  from Cons.IH[OF shows_list_Use[OF Cons.prems(1), of g h] this] u
  show ?case by simp
qed

lemma Use_all_nil:
  "n < length (objs \<sigma>) \<Longrightarrow> NilHandler \<in> set hs \<Longrightarrow>
   Use_all g n hs \<sigma> = Inl (PanicMsg ''handler cannot be nil'')"
proof (induction hs arbitrary: \<sigma>)
  case Nil
  then show ?case by simp
next
  case (Cons h hs)
  show ?case
  proof (cases h)
    case NilHandler
    then show ?thesis by (simp add: Use_nil)
  next
    case (HandlerFunc f)
    with Cons.prems(2) have m: "NilHandler \<in> set hs" by simp
    have n': "n < length (objs (after_Use g n h \<sigma>))"
      using Cons.prems(1) by (simp add: after_Use_length)
    from Cons.IH[OF n' m] Use_eq[OF Cons.prems(1), of g f] HandlerFunc
    show ?thesis by simp
  qed
qed

lemma shows_list_New:
  "shows_list (snd (New sl \<sigma>)) (fst (New sl \<sigma>)) (elems \<sigma> sl) = wf_slice \<sigma> sl"
  by (simp add: shows_list_def New_def elems_def wf_slice_def)

lemma Use_all_elems:
  "n < length (objs \<sigma>) \<Longrightarrow> wf_slice \<sigma> (handlers (objs \<sigma> ! n)) \<Longrightarrow>
   NilHandler \<notin> set hs \<Longrightarrow>
   \<exists>\<sigma>'. Use_all g n hs \<sigma> = Inr \<sigma>' \<and> n < length (objs \<sigma>') \<and>
        wf_slice \<sigma>' (handlers (objs \<sigma>' ! n)) \<and>
        elems \<sigma>' (handlers (objs \<sigma>' ! n)) = elems \<sigma> (handlers (objs \<sigma> ! n)) @ hs"
proof (induction hs arbitrary: \<sigma>)
  case Nil
  then show ?case by simp
next
  case (Cons h hs)
  from Cons.prems(3) obtain f where h: "h = HandlerFunc f"
    by (cases h) auto
  let ?\<tau> = "after_Use g n h \<sigma>"
  have u: "Use g n h \<sigma> = Inr ?\<tau>"
    using Use_eq[OF Cons.prems(1)] h by simp
  have n': "n < length (objs ?\<tau>)"
    using Cons.prems(1) by (simp add: after_Use_length)
  from Cons.prems(3) have "NilHandler \<notin> set hs" by simp
  from Cons.IH[OF n' after_Use_wf[OF Cons.prems(1,2)] this] u
  show ?case
    by (simp add: after_Use_elems[OF Cons.prems(1,2)])
qed

lemma Use_all_prefix:
  "n < length (objs \<sigma>) \<Longrightarrow> L \<le> sptr (handlers (objs \<sigma> ! n)) \<Longrightarrow> L \<le> length (arrays \<sigma>) \<Longrightarrow>
   NilHandler \<notin> set hs \<Longrightarrow>
   \<exists>\<sigma>'. Use_all g n hs \<sigma> = Inr \<sigma>' \<and> take L (arrays \<sigma>') = take L (arrays \<sigma>) \<and>
        length (objs \<sigma>') = length (objs \<sigma>) \<and> (\<forall>m. m \<noteq> n \<longrightarrow> objs \<sigma>' ! m = objs \<sigma> ! m)"
proof (induction hs arbitrary: \<sigma>)
  case Nil
  then show ?case by simp
next
  case (Cons h hs)
  from Cons.prems(4) obtain f where h: "h = HandlerFunc f"
    by (cases h) auto
  let ?\<tau> = "after_Use g n h \<sigma>"
  have u: "Use g n h \<sigma> = Inr ?\<tau>"
    using Use_eq[OF Cons.prems(1)] h by simp
  have n': "n < length (objs ?\<tau>)"
    using Cons.prems(1) by (simp add: after_Use_length)
  have pre: "take L (arrays ?\<tau>) = take L (arrays \<sigma>)"
    using after_Use_prefix[OF Cons.prems(2,3)] .
  have sp: "L \<le> sptr (handlers (objs ?\<tau> ! n))"
    using append_slice_sptr[OF Cons.prems(2,3)] Cons.prems(1) by (simp add: after_Use_handlers)
  have len: "L \<le> length (arrays ?\<tau>)"
    using append_slice_length[of \<sigma> g "handlers (objs \<sigma> ! n)" "[h]"] Cons.prems(3)
    by (simp add: after_Use_arrays)
  from Cons.prems(4) have "NilHandler \<notin> set hs" by simp
  from Cons.IH[OF n' sp len this] u pre show ?case
    by (auto simp: after_Use_length after_Use_other)
qed

lemma Use_all_snapshot:
  "n < length (objs \<sigma>) \<Longrightarrow> wf_slice \<sigma> (handlers (objs \<sigma> ! n)) \<Longrightarrow>
   behind \<sigma> snap (handlers (objs \<sigma> ! n)) \<Longrightarrow> NilHandler \<notin> set hs \<Longrightarrow>
   \<exists>\<sigma>'. Use_all g n hs \<sigma> = Inr \<sigma>' \<and> elems \<sigma>' snap = elems \<sigma> snap"
proof (induction hs arbitrary: \<sigma>)
  case Nil
  then show ?case by simp
next
  case (Cons h hs)
  from Cons.prems(4) obtain f where h: "h = HandlerFunc f"
    by (cases h) auto
  let ?\<tau> = "after_Use g n h \<sigma>"
  have u: "Use g n h \<sigma> = Inr ?\<tau>"
    using Use_eq[OF Cons.prems(1)] h by simp
  have n': "n < length (objs ?\<tau>)"
    using Cons.prems(1) by (simp add: after_Use_length)
  have wf': "wf_slice ?\<tau> (handlers (objs ?\<tau> ! n))"
    using after_Use_wf[OF Cons.prems(1,2)] .
  from append_slice_behind[OF Cons.prems(2,3), of g "[h]"]
  have b': "behind ?\<tau> snap (handlers (objs ?\<tau> ! n))" and e: "elems ?\<tau> snap = elems \<sigma> snap"
    using Cons.prems(1)
    by (simp_all add: after_Use_handlers behind_cong[OF after_Use_arrays] elems_cong[OF after_Use_arrays])
  from Cons.prems(4) have "NilHandler \<notin> set hs" by simp
  from Cons.IH[OF n' wf' b' this] u e show ?case by simp
qed

lemma Use_ngo_eq:
  assumes n: "n < length (objs \<sigma>)" and wf: "wf_slice \<sigma> (handlers_ngo (objs \<sigma> ! n))"
  shows "Use_ngo g n h \<sigma> = Inr (after_Use_ngo g n h \<sigma>)"
proof -
  obtain hs' \<sigma>1 where a: "append_slice g (handlers_ngo (objs \<sigma> ! n)) [h] \<sigma> = (hs', \<sigma>1)"
    by (cases "append_slice g (handlers_ngo (objs \<sigma> ! n)) [h] \<sigma>")
  have e: "elems \<sigma>1 hs' = elems \<sigma> (handlers_ngo (objs \<sigma> ! n)) @ [h]"
    using append_slice_elems[OF wf, of g "[h]"] by (simp add: a)
  then have b: "build_ngo 0 (elems \<sigma>1 hs') = Inr (chain_ngo (elems \<sigma>1 hs'))"
    by (simp add: build_ngo_0)
  have o: "objs \<sigma>1 = objs \<sigma>"
    using append_slice_objs[of g "handlers_ngo (objs \<sigma> ! n)" "[h]" \<sigma>] by (simp add: a)
  have el: "\<And>x. elems (\<sigma>1\<lparr>objs := x\<rparr>) hs' = elems \<sigma>1 hs'"
    by (simp add: elems_def)
  show ?thesis
    using n b by (simp add: Use_ngo_def after_Use_ngo_def Let_def a o el)
qed

lemma after_Use_ngo_arrays:
  "arrays (after_Use_ngo g n h \<sigma>) = arrays (snd (append_slice g (handlers_ngo (objs \<sigma> ! n)) [h] \<sigma>))"
  by (simp add: after_Use_ngo_def Let_def)

lemma after_Use_ngo_length: "length (objs (after_Use_ngo g n h \<sigma>)) = length (objs \<sigma>)"
  by (simp add: after_Use_ngo_def Let_def)

lemma after_Use_ngo_handlers:
  "n < length (objs \<sigma>) \<Longrightarrow>
   handlers_ngo (objs (after_Use_ngo g n h \<sigma>) ! n) =
     fst (append_slice g (handlers_ngo (objs \<sigma> ! n)) [h] \<sigma>)"
  by (simp add: after_Use_ngo_def Let_def)

lemma after_Use_ngo_middleware:
  "n < length (objs \<sigma>) \<Longrightarrow>
   middleware_ngo (objs (after_Use_ngo g n h \<sigma>) ! n) =
     chain_ngo (elems (after_Use_ngo g n h \<sigma>) (handlers_ngo (objs (after_Use_ngo g n h \<sigma>) ! n)))"
  by (simp add: after_Use_ngo_def Let_def elems_def)

lemma after_Use_ngo_elems:
  assumes "n < length (objs \<sigma>)" "wf_slice \<sigma> (handlers_ngo (objs \<sigma> ! n))"
  shows "elems (after_Use_ngo g n h \<sigma>) (handlers_ngo (objs (after_Use_ngo g n h \<sigma>) ! n))
           = elems \<sigma> (handlers_ngo (objs \<sigma> ! n)) @ [h]"
  using append_slice_elems[OF assms(2), of g "[h]"] assms(1)
  by (simp add: after_Use_ngo_handlers elems_cong[OF after_Use_ngo_arrays])

lemma after_Use_ngo_wf:
  assumes "n < length (objs \<sigma>)" "wf_slice \<sigma> (handlers_ngo (objs \<sigma> ! n))"
  shows "wf_slice (after_Use_ngo g n h \<sigma>) (handlers_ngo (objs (after_Use_ngo g n h \<sigma>) ! n))"
  using append_slice_wf[OF assms(2), of g "[h]"] assms(1)
  by (simp add: after_Use_ngo_handlers wf_slice_cong[OF after_Use_ngo_arrays])

lemma Use_all_ngo_total:
  "n < length (objs \<sigma>) \<Longrightarrow> wf_slice \<sigma> (handlers_ngo (objs \<sigma> ! n)) \<Longrightarrow>
   \<exists>\<sigma>'. Use_all_ngo g n hs \<sigma> = Inr \<sigma>' \<and> n < length (objs \<sigma>') \<and>
        wf_slice \<sigma>' (handlers_ngo (objs \<sigma>' ! n)) \<and>
        elems \<sigma>' (handlers_ngo (objs \<sigma>' ! n)) = elems \<sigma> (handlers_ngo (objs \<sigma> ! n)) @ hs"
proof (induction hs arbitrary: \<sigma>)
  case Nil
  then show ?case by simp
next
  case (Cons h hs)
  let ?\<tau> = "after_Use_ngo g n h \<sigma>"
  have n': "n < length (objs ?\<tau>)" using Cons.prems(1) by (simp add: after_Use_ngo_length)
  from Cons.IH[OF n' after_Use_ngo_wf[OF Cons.prems]]
  show ?case
    by (simp add: Use_ngo_eq[OF Cons.prems] after_Use_ngo_elems[OF Cons.prems])
qed

subsection \<open>With\<close>

lemma With_result:
  assumes p: "p < length (objs \<sigma>)"
    and wfp: "wf_slice \<sigma> (handlers (objs \<sigma> ! p))"
    and wfh: "wf_slice \<sigma> hs"
  shows "\<exists>\<sigma>'. With g p hs \<sigma> = Inr (length (objs \<sigma>), \<sigma>') \<and>
           take (length (objs \<sigma>)) (objs \<sigma>') = objs \<sigma> \<and>
           take (length (arrays \<sigma>)) (arrays \<sigma>') = arrays \<sigma> \<and>
           length (arrays \<sigma>) \<le> sptr (handlers (objs \<sigma>' ! length (objs \<sigma>))) \<and>
           shows_list \<sigma>' (length (objs \<sigma>))
             (elems \<sigma> (handlers (objs \<sigma> ! p)) @ elems \<sigma> hs)"
proof -
  define ph where "ph = handlers (objs \<sigma> ! p)"
  define L where "L = length (arrays \<sigma>)"
  define cur where "cur = \<lparr>sptr = L, soff = 0, slen = slen ph, scap = slen ph\<rparr>"
  define \<sigma>1 where "\<sigma>1 = \<sigma>\<lparr>arrays := arrays \<sigma> @ [replicate (slen ph) NilHandler]\<rparr>"
  define \<sigma>2 where "\<sigma>2 = copy_slice cur (handlers (objs \<sigma>1 ! p)) \<sigma>1"
  define a where "a = append_slice g cur (elems \<sigma>2 hs) \<sigma>2"
  have mk: "make_slice (slen (handlers (objs \<sigma> ! p))) \<sigma> = (cur, \<sigma>1)"
    by (simp add: make_slice_def cur_def \<sigma>1_def ph_def L_def)
  have W: "With g p hs \<sigma> = Inr (New (fst a) (snd a))"
    using p by (simp add: With_def mk Let_def a_def \<sigma>2_def split: prod.splits)
  have len_ph: "length (elems \<sigma> ph) = slen ph"
    using elems_length[OF wfp] by (simp add: ph_def)
  have pre1: "take (length (arrays \<sigma>)) (arrays \<sigma>1) = arrays \<sigma>"
    by (simp add: \<sigma>1_def)
  have e1: "elems \<sigma>1 ph = elems \<sigma> ph"
    using elems_prefix[OF pre1] wfp by (simp add: ph_def)
  have arr2: "arrays \<sigma>2 = arrays \<sigma> @ [elems \<sigma> ph]"
    using len_ph
    by (simp add: \<sigma>2_def copy_slice_def cur_def \<sigma>1_def L_def ph_def[symmetric] e1[unfolded \<sigma>1_def]
          write_at_def)
  have objs2: "objs \<sigma>2 = objs \<sigma>"
    by (simp add: \<sigma>2_def copy_slice_def \<sigma>1_def)
  have pre2: "take (length (arrays \<sigma>)) (arrays \<sigma>2) = arrays \<sigma>"
    by (simp add: arr2)
  have wf2: "wf_slice \<sigma>2 cur"
    using len_ph by (simp add: wf_slice_def cur_def arr2 L_def)
  have e2: "elems \<sigma>2 cur = elems \<sigma> ph"
    using len_ph by (simp add: elems_def cur_def arr2 L_def)
  have eh: "elems \<sigma>2 hs = elems \<sigma> hs"
    using elems_prefix[OF pre2 wfh] .
  have ea: "elems (snd a) (fst a) = elems \<sigma> ph @ elems \<sigma> hs"
    using append_slice_elems[OF wf2, of g "elems \<sigma>2 hs"] by (simp add: a_def e2 eh)
  have wfa: "wf_slice (snd a) (fst a)"
    using append_slice_wf[OF wf2] by (simp add: a_def)
  have L2: "L \<le> length (arrays \<sigma>2)" by (simp add: arr2 L_def)
  have prea: "take L (arrays (snd a)) = arrays \<sigma>"
    using append_slice_prefix[of L cur \<sigma>2 g "elems \<sigma>2 hs"] L2
    by (simp add: a_def cur_def arr2 L_def)
  have sptra: "L \<le> sptr (fst a)"
    using append_slice_sptr[of L cur \<sigma>2 g "elems \<sigma>2 hs"] L2 by (simp add: a_def cur_def)
  have objsa: "objs (snd a) = objs \<sigma>"
    by (simp add: a_def append_slice_objs objs2)
  have N: "New (fst a) (snd a) = (length (objs \<sigma>), (snd a)\<lparr>objs := objs \<sigma> @
             [\<lparr>middleware = build (elems (snd a) (fst a)), handlers = fst a\<rparr>]\<rparr>)"
    by (simp add: New_def objsa)
  show ?thesis
    using W N ea wfa prea sptra
    by (simp add: shows_list_def ph_def L_def elems_def wf_slice_def)
qed

subsection \<open>The concrete stores are reached by the calls they are named after\<close>

lemma pipeline_h_reached:
  "Use doubling 0 one_handler (snd (New nil_slice empty_store)) = Inr pipeline_h"
  by (simp add: Use_def New_def empty_store_def nil_slice_def append_slice_def doubling_def
        pipeline_h_def elems_def one_handler_def invokes_next_once_def Let_def)

lemma pipeline_h_ngo_reached:
  "Use_ngo doubling 0 one_handler (snd (New_ngo empty_store)) = Inr pipeline_h_ngo"
  by (simp add: Use_ngo_def New_ngo_def empty_store_def nil_slice_def append_slice_def
        doubling_def pipeline_h_ngo_def elems_def Let_def build_ngo_0)

lemma pipeline_nil_ngo_reached:
  "Use_ngo doubling 0 NilHandler (snd (New_ngo empty_store)) = Inr pipeline_nil_ngo"
  by (simp add: Use_ngo_def New_ngo_def empty_store_def nil_slice_def append_slice_def
        doubling_def pipeline_nil_ngo_def elems_def Let_def build_ngo_0)

lemma derived_h_reached:
  "With doubling 0 \<lparr>sptr = 0, soff = 0, slen = 1, scap = 1\<rparr> pipeline_h = Inr (1, derived_h)"
  by (simp add: With_def pipeline_h_def make_slice_def copy_slice_def append_slice_def New_def
        derived_h_def elems_def write_at_def doubling_def Let_def)

lemma three_used_reached: "Use_all doubling 0 three_handlers before_h = Inr three_used"
  by (simp add: three_handlers_def before_h_def New_def empty_store_def nil_slice_def Use_def
        append_slice_def doubling_def elems_def write_at_def three_used_def
        invokes_next_once_def Let_def)

lemma four_used_reached: "Use doubling 0 one_handler three_used = Inr four_used"
  by (simp add: three_handlers_def Use_def one_handler_def
        append_slice_def doubling_def elems_def write_at_def three_used_def four_used_def
        invokes_next_once_def Let_def)

lemma two_share_reached:
  "New \<lparr>sptr = 2, soff = 0, slen = 3, scap = 4\<rparr> three_used = (1, two_share)"
  by (simp add: New_def three_used_def two_share_def elems_def three_handlers_def)

lemma two_share_p_used_reached:
  "Use doubling 0 one_handler two_share = Inr two_share_p_used"
  by (simp add: three_handlers_def Use_def one_handler_def
        append_slice_def doubling_def elems_def write_at_def two_share_def two_share_p_used_def
        invokes_next_once_def Let_def)

lemma two_share_q_used_reached:
  "Use doubling 1 other_handler two_share_p_used = Inr two_share_q_used"
  by (simp add: three_handlers_def Use_def one_handler_def other_handler_def
        append_slice_def doubling_def elems_def write_at_def two_share_p_used_def
        two_share_q_used_def invokes_next_once_def Let_def)

lemma other_handler_differs: "other_handler \<noteq> one_handler"
proof
  assume "other_handler = one_handler"
  then have "Handler_ServeHTTP other_handler (Wrapped 0) () (\<lambda>rw r s. Inr s) quiet =
             Handler_ServeHTTP one_handler (Wrapped 0) () (\<lambda>rw r s. Inr s) quiet"
    by simp
  then show False
    by (simp add: other_handler_def one_handler_def invokes_next_once_def traces_def quiet_def)
qed

section \<open>The claims\<close>

subsection \<open>C1: the chain has n+1 nodes and is visited in list order\<close>

text \<open>
  Claim C1, as amended. In \<^verbatim>\<open>src/unnamed/part_000\<close>, for every handler list of length
  \<open>n\<close> the chain that \<^verbatim>\<open>build\<close> returns has exactly \<open>n + 1\<close> nodes: the \<open>n\<close>
  handlers in list order, then the sentinel with its empty handler (the zero value
  \<^verbatim>\<open>middleware{}\<close> that the sentinel holds as its next ends the chain and is not
  counted); the empty list yields the sentinel itself; and a dispatch through the head
  of a chain of handlers that each invoke their continuation exactly once visits them in
  list order (when the handlers log their names, the log after the dispatch is the list
  of names). In
  \<^verbatim>\<open>src/negroni.go\<close>, \<^verbatim>\<open>build(0, handlers)\<close> panics with an index out of range on the
  empty list; for a list of length \<open>n \<ge> 1\<close> it returns a chain of the same \<open>n + 1\<close>
  nodes; a dispatch through its head visits the handlers in list order, each only if
  its node is entered with a response writer whose written flag is false, and a node
  entered with the flag set returns at once; so the outcome is the visit in list order
  whenever every handler is reached with an unwritten response writer.
\<close>

theorem C1_chain_and_order:
  "nodes (build hs) = (hs :: ('w, 'q, 's) Handler list) @ [HandlerFunc (\<lambda>rw r next s. Inr s)]
   \<and> length (nodes (build hs)) = length hs + 1
   \<and> build [] = (voidMiddleware :: ('w, 'q, 's) middleware)
   \<and> middleware_ServeHTTP (build (map invokes_next_once bas)) rw r s = visit_in_order bas rw r s
   \<and> middleware_ServeHTTP (build (map logs_then_next xs)) rw' r' log = Inr (log @ xs)
   \<and> build_ngo 0 ([] :: ('w, 'q, 's) Handler list) = Inl IndexOutOfRange
   \<and> (hs \<noteq> [] \<longrightarrow>
        (\<exists>m. build_ngo 0 hs = Inr m \<and> nodes_ngo m = hs @ [HandlerFunc voidHandler]
           \<and> length (nodes_ngo m) = length hs + 1))
   \<and> (bas \<noteq> [] \<longrightarrow>
        (\<exists>m. build_ngo 0 (map invokes_next_once bas) = Inr m
           \<and> middleware_ServeHTTP_ngo ops m rw r s =
               visit_until_ngo ops bas
                 (\<lambda>rw r s. if isResponseWriter ops rw then Inr s else Inl TypeAssertion) rw r s
           \<and> (unwritten_along ops bas rw r s \<longrightarrow>
                middleware_ServeHTTP_ngo ops m rw r s = visit_in_order bas rw r s)))"
proof (intro conjI impI)
  show "nodes (build hs) = hs @ [HandlerFunc (\<lambda>rw r next s. Inr s)]"
    by (rule nodes_build)
  show "length (nodes (build hs)) = length hs + 1"
    by (simp add: nodes_build)
  show "build [] = (voidMiddleware :: ('w, 'q, 's) middleware)"
    by (rule build_Nil)
  show "middleware_ServeHTTP (build (map invokes_next_once bas)) rw r s = visit_in_order bas rw r s"
    by (simp only: serve_build_in_order)
  show "middleware_ServeHTTP (build (map logs_then_next xs)) rw' r' log = Inr (log @ xs)"
    by (rule serve_logs)
  show "build_ngo 0 ([] :: ('w, 'q, 's) Handler list) = Inl IndexOutOfRange"
    by (simp add: build_ngo_out_of_range)
  show "\<exists>m. build_ngo 0 hs = Inr m \<and> nodes_ngo m = hs @ [HandlerFunc voidHandler]
           \<and> length (nodes_ngo m) = length hs + 1" if "hs \<noteq> []"
    using that by (simp add: build_ngo_0 nodes_chain_ngo)
  show "\<exists>m. build_ngo 0 (map invokes_next_once bas) = Inr m
           \<and> middleware_ServeHTTP_ngo ops m rw r s =
               visit_until_ngo ops bas
                 (\<lambda>rw r s. if isResponseWriter ops rw then Inr s else Inl TypeAssertion) rw r s
           \<and> (unwritten_along ops bas rw r s \<longrightarrow>
                middleware_ServeHTTP_ngo ops m rw r s = visit_in_order bas rw r s)" if ne: "bas \<noteq> []"
  proof -
    have b: "build_ngo 0 (map invokes_next_once bas) = Inr (chain_ngo (map invokes_next_once bas))"
      using ne by (simp add: build_ngo_0)
    have f: "middleware_ServeHTTP_ngo ops (chain_ngo []) =
               (\<lambda>rw r s. if isResponseWriter ops rw then Inr s else Inl TypeAssertion)"
      by (simp add: fun_eq_iff chain_ngo_def serve_sentinel_ngo)
    have v: "middleware_ServeHTTP_ngo ops (chain_ngo (map invokes_next_once bas)) rw r s =
               visit_until_ngo ops bas
                 (\<lambda>rw r s. if isResponseWriter ops rw then Inr s else Inl TypeAssertion) rw r s"
      using serve_chain_ngo_until[of ops bas "[]" rw r s] by (simp only: f append_Nil2)
    have u: "middleware_ServeHTTP_ngo ops (chain_ngo (map invokes_next_once bas)) rw r s =
               visit_in_order bas rw r s" if "unwritten_along ops bas rw r s"
      using serve_chain_ngo_until[of ops bas "[]" rw r s] visit_unwritten[OF that]
      by (simp add: chain_ngo_def)
    from b v u show ?thesis by simp
  qed
qed

text \<open>
  Two handlers that add \<open>a\<close> and \<open>b\<close> to the trace: the list is not empty, the sink
  stays unwritten along the visit, and both files leave the trace \<open>a, b\<close>.
\<close>

theorem C1_chain_and_order_witness:
  "[traces ''a'', traces ''b''] \<noteq> []
   \<and> unwritten_along spec_sinks [traces ''a'', traces ''b''] (Wrapped 0) () quiet
   \<and> (\<exists>m. build_ngo 0 (map invokes_next_once [traces ''a'', traces ''b'']) = Inr m
         \<and> middleware_ServeHTTP_ngo spec_sinks m (Wrapped 0) () quiet =
             Inr \<lparr>flags = [False], trace = [''a'', ''b'']\<rparr>)
   \<and> middleware_ServeHTTP (build (map invokes_next_once [traces ''a'', traces ''b'']))
        (Wrapped 0) () quiet = Inr \<lparr>flags = [False], trace = [''a'', ''b'']\<rparr>"
proof -
  let ?bas = "[traces ''a'', traces ''b'']"
  have ne: "?bas \<noteq> []" by simp
  have un: "unwritten_along spec_sinks ?bas (Wrapped 0) () quiet"
    by (simp add: spec_sinks_def traces_def quiet_def)
  have v: "visit_in_order ?bas (Wrapped 0) () quiet = Inr \<lparr>flags = [False], trace = [''a'', ''b'']\<rparr>"
    by (simp add: visit_in_order_def traces_def quiet_def)
  note t = C1_chain_and_order[where bas = ?bas and ops = spec_sinks and rw = "Wrapped 0"
      and r = "()" and s = quiet and hs = "map invokes_next_once ?bas"
      and xs = "[''a'', ''b'']" and rw' = "Wrapped 0" and r' = "()" and log = "[]"]
  from t have a: "middleware_ServeHTTP (build (map invokes_next_once ?bas)) (Wrapped 0) () quiet =
      visit_in_order ?bas (Wrapped 0) () quiet"
    by (elim conjE)
  from t have "?bas \<noteq> [] \<longrightarrow>
        (\<exists>m. build_ngo 0 (map invokes_next_once ?bas) = Inr m
           \<and> middleware_ServeHTTP_ngo spec_sinks m (Wrapped 0) () quiet =
               visit_until_ngo spec_sinks ?bas
                 (\<lambda>rw r s. if isResponseWriter spec_sinks rw then Inr s else Inl TypeAssertion)
                 (Wrapped 0) () quiet
           \<and> (unwritten_along spec_sinks ?bas (Wrapped 0) () quiet \<longrightarrow>
                middleware_ServeHTTP_ngo spec_sinks m (Wrapped 0) () quiet =
                  visit_in_order ?bas (Wrapped 0) () quiet))"
    by (elim conjE)
  with ne un have b: "\<exists>m. build_ngo 0 (map invokes_next_once ?bas) = Inr m
         \<and> middleware_ServeHTTP_ngo spec_sinks m (Wrapped 0) () quiet =
             visit_in_order ?bas (Wrapped 0) () quiet"
    by blast
  from ne un a b show ?thesis unfolding v by (intro conjI)
qed

text \<open>
  Claim C1 as stated fails for \<^verbatim>\<open>src/negroni.go\<close>. There \<^verbatim>\<open>build(0, handlers)\<close> on the
  empty list panics instead of yielding the sentinel. And with a first handler that
  writes to the sink and then invokes its continuation, the second handler is not
  invoked, although both invoke their continuation exactly once: the dispatch leaves the
  trace \<open>a\<close>, the visit in list order would leave \<open>a, b\<close>.
\<close>

theorem C1_counterexample:
  "build_ngo 0 ([] :: (sink, unit, world) Handler list) = Inl IndexOutOfRange
   \<and> build_ngo 0 [invokes_next_once (writes ''a''), invokes_next_once (traces ''b'')] =
       Inr (Middleware_ngo (invokes_next_once (writes ''a''))
              (Some (Middleware_ngo (invokes_next_once (traces ''b'')) (Some sentinel_ngo))))
   \<and> middleware_ServeHTTP_ngo spec_sinks
         (Middleware_ngo (invokes_next_once (writes ''a''))
            (Some (Middleware_ngo (invokes_next_once (traces ''b'')) (Some sentinel_ngo))))
         (Wrapped 0) () quiet =
       Inr \<lparr>flags = [True], trace = [''a'']\<rparr>
   \<and> visit_in_order [writes ''a'', traces ''b''] (Wrapped 0) () quiet =
       Inr \<lparr>flags = [True], trace = [''a'', ''b'']\<rparr>"
proof (intro conjI)
  show "build_ngo 0 ([] :: (sink, unit, world) Handler list) = Inl IndexOutOfRange"
    by (simp add: build_ngo_out_of_range)
  show "build_ngo 0 [invokes_next_once (writes ''a''), invokes_next_once (traces ''b'')] =
       Inr (Middleware_ngo (invokes_next_once (writes ''a''))
              (Some (Middleware_ngo (invokes_next_once (traces ''b'')) (Some sentinel_ngo))))"
    by (simp add: build_ngo_0 chain_ngo_def)
  show "middleware_ServeHTTP_ngo spec_sinks
         (Middleware_ngo (invokes_next_once (writes ''a''))
            (Some (Middleware_ngo (invokes_next_once (traces ''b'')) (Some sentinel_ngo))))
         (Wrapped 0) () quiet =
       Inr \<lparr>flags = [True], trace = [''a'']\<rparr>"
    by (simp add: sentinel_ngo_def invokes_next_once_def writes_def traces_def
          spec_sinks_def quiet_def sink_write_def)
  show "visit_in_order [writes ''a'', traces ''b''] (Wrapped 0) () quiet =
       Inr \<lparr>flags = [True], trace = [''a'', ''b'']\<rparr>"
    by (simp add: visit_in_order_def writes_def traces_def quiet_def sink_write_def)
qed

subsection \<open>C2: a handler that does not invoke its continuation cuts the chain short\<close>

text \<open>
  Claim C2. Take a handler list whose first \<open>k - 1\<close> handlers each invoke their
  continuation exactly once (\<open>bas\<close>), whose handler \<open>k\<close> is any handler (\<open>hk\<close>) and
  whose handlers \<open>k + 1\<close> to \<open>n\<close> are any handlers at all (\<open>rest\<close>), and take one
  dispatch (\<open>rw\<close>, \<open>r\<close>, \<open>s\<close>). If handler \<open>k\<close> does not invoke its continuation
  with the arguments this dispatch enters it with (on other arguments it may), then in
  both files the outcome of the dispatch is that of visiting the first \<open>k - 1\<close>
  handlers in order with handler \<open>k\<close> run behind them, whatever continuation \<open>cont\<close>
  handler \<open>k\<close> is handed; \<open>rest\<close> does not occur in it, and the outcome is the same
  for every other choice \<open>rest'\<close> of the later handlers, nil and panicking handlers
  included: no handler behind \<open>k\<close> is invoked during that dispatch. In
  \<^verbatim>\<open>src/negroni.go\<close> that also holds when the dispatch does not enter handler \<open>k\<close>
  at all, because a node on the way found the sink written. Last, for a handler \<open>k\<close>
  that never invokes its continuation (\<open>body\<close>), the same holds on every dispatch
  whatever the handlers before \<open>k\<close> are (\<open>pre\<close>).
\<close>

theorem C2_short_circuit:
  "((case entered bas rw r s of (rw', r', s') \<Rightarrow> skips_next hk rw' r' s') \<longrightarrow>
      middleware_ServeHTTP (build (map invokes_next_once bas @ hk # rest)) rw r s =
        visit_until bas (\<lambda>rw r s. Handler_ServeHTTP hk rw r cont s) rw r s
      \<and> middleware_ServeHTTP (build (map invokes_next_once bas @ hk # rest)) rw r s =
          middleware_ServeHTTP (build (map invokes_next_once bas @ hk # rest')) rw r s)
   \<and> ((case entered_ngo ops bas rw r s of None \<Rightarrow> True
        | Some (rw', r', s') \<Rightarrow> skips_next hk rw' r' s') \<longrightarrow>
      (\<exists>m m'. build_ngo 0 (map invokes_next_once bas @ hk # rest) = Inr m
         \<and> build_ngo 0 (map invokes_next_once bas @ hk # rest') = Inr m'
         \<and> middleware_ServeHTTP_ngo ops m rw r s =
             visit_until_ngo ops bas
               (\<lambda>rw r s. if \<not> isResponseWriter ops rw then Inl TypeAssertion
                         else if Written ops rw s then Inr s
                         else Handler_ServeHTTP hk rw r cont s) rw r s
         \<and> middleware_ServeHTTP_ngo ops m rw r s = middleware_ServeHTTP_ngo ops m' rw r s))
   \<and> middleware_ServeHTTP (build (pre @ withholds_next body # rest)) rw r s =
       middleware_ServeHTTP (build (pre @ withholds_next body # rest')) rw r s
   \<and> (\<exists>m m'. build_ngo 0 (pre @ withholds_next body # rest) = Inr m
         \<and> build_ngo 0 (pre @ withholds_next body # rest') = Inr m'
         \<and> middleware_ServeHTTP_ngo ops m rw r s = middleware_ServeHTTP_ngo ops m' rw r s)"
proof (intro conjI impI)
  assume h: "case entered bas rw r s of (rw', r', s') \<Rightarrow> skips_next hk rw' r' s'"
  show "middleware_ServeHTTP (build (map invokes_next_once bas @ hk # rest)) rw r s =
        visit_until bas (\<lambda>rw r s. Handler_ServeHTTP hk rw r cont s) rw r s"
    by (rule serve_build_skips[OF h])
  show "middleware_ServeHTTP (build (map invokes_next_once bas @ hk # rest)) rw r s =
          middleware_ServeHTTP (build (map invokes_next_once bas @ hk # rest')) rw r s"
    by (simp only: serve_build_skips[OF h, of _ nil_func])
next
  assume h: "case entered_ngo ops bas rw r s of None \<Rightarrow> True
        | Some (rw', r', s') \<Rightarrow> skips_next hk rw' r' s'"
  have b: "\<And>rest. build_ngo 0 (map invokes_next_once bas @ hk # rest) =
             Inr (chain_ngo (map invokes_next_once bas @ hk # rest))"
    by (simp add: build_ngo_0)
  have q: "\<And>rest cont. middleware_ServeHTTP_ngo ops
             (chain_ngo (map invokes_next_once bas @ hk # rest)) rw r s =
           visit_until_ngo ops bas
               (\<lambda>rw r s. if \<not> isResponseWriter ops rw then Inl TypeAssertion
                         else if Written ops rw s then Inr s
                         else Handler_ServeHTTP hk rw r cont s) rw r s"
    by (rule serve_chain_ngo_skips[OF h])
  have e: "middleware_ServeHTTP_ngo ops (chain_ngo (map invokes_next_once bas @ hk # rest)) rw r s =
           middleware_ServeHTTP_ngo ops (chain_ngo (map invokes_next_once bas @ hk # rest')) rw r s"
    by (simp only: q[of _ nil_func])
  show "\<exists>m m'. build_ngo 0 (map invokes_next_once bas @ hk # rest) = Inr m
         \<and> build_ngo 0 (map invokes_next_once bas @ hk # rest') = Inr m'
         \<and> middleware_ServeHTTP_ngo ops m rw r s =
             visit_until_ngo ops bas
               (\<lambda>rw r s. if \<not> isResponseWriter ops rw then Inl TypeAssertion
                         else if Written ops rw s then Inr s
                         else Handler_ServeHTTP hk rw r cont s) rw r s
         \<and> middleware_ServeHTTP_ngo ops m rw r s = middleware_ServeHTTP_ngo ops m' rw r s"
    using q[of rest cont] e by (simp only: b sum.inject simp_thms ex_simps)
next
  have a: "middleware_ServeHTTP (build (pre @ withholds_next body # rest)) =
           middleware_ServeHTTP (build (pre @ withholds_next body # rest'))"
    by (rule serve_build_prefix) (simp only: serve_withholds)
  then show "middleware_ServeHTTP (build (pre @ withholds_next body # rest)) rw r s =
       middleware_ServeHTTP (build (pre @ withholds_next body # rest')) rw r s"
    by (simp only:)
next
  have b: "\<And>hs rest. build_ngo 0 (hs @ withholds_next body # rest) =
             Inr (chain_ngo (hs @ withholds_next body # rest))"
    by (simp add: build_ngo_0)
  have c: "middleware_ServeHTTP_ngo ops (chain_ngo (pre @ withholds_next body # rest)) =
           middleware_ServeHTTP_ngo ops (chain_ngo (pre @ withholds_next body # rest'))"
    by (rule serve_chain_ngo_prefix) (simp only: serve_withholds_ngo)
  show "\<exists>m m'. build_ngo 0 (pre @ withholds_next body # rest) = Inr m
         \<and> build_ngo 0 (pre @ withholds_next body # rest') = Inr m'
         \<and> middleware_ServeHTTP_ngo ops m rw r s = middleware_ServeHTTP_ngo ops m' rw r s"
    by (simp only: b c sum.inject simp_thms ex_simps)
qed

text \<open>
  A list of three handlers whose second, \<open>gate\<close>, invokes its continuation only while
  the trace is empty. In the dispatch below the first handler has traced \<open>h1\<close> when
  \<open>gate\<close> is entered, so \<open>gate\<close> stops: the first and the second ran (the trace is
  \<open>h1, stop\<close>), the third did not. In a dispatch that enters \<open>gate\<close> with an empty
  trace, \<open>gate\<close> invokes its continuation and the handler behind it runs.
\<close>

theorem C2_short_circuit_witness:
  "entered [traces ''h1''] (Wrapped 0) () quiet =
     (Wrapped 0, (), \<lparr>flags = [False], trace = [''h1'']\<rparr>)
   \<and> entered_ngo spec_sinks [traces ''h1''] (Wrapped 0) () quiet =
       Some (Wrapped 0, (), \<lparr>flags = [False], trace = [''h1'']\<rparr>)
   \<and> skips_next gate (Wrapped 0) () \<lparr>flags = [False], trace = [''h1'']\<rparr>
   \<and> middleware_ServeHTTP
       (build (map invokes_next_once [traces ''h1''] @ gate # [invokes_next_once (traces ''h3'')]))
       (Wrapped 0) () quiet = Inr \<lparr>flags = [False], trace = [''h1'', ''stop'']\<rparr>
   \<and> (\<exists>m. build_ngo 0
             (map invokes_next_once [traces ''h1''] @ gate # [invokes_next_once (traces ''h3'')]) = Inr m
         \<and> middleware_ServeHTTP_ngo spec_sinks m (Wrapped 0) () quiet =
             Inr \<lparr>flags = [False], trace = [''h1'', ''stop'']\<rparr>)
   \<and> middleware_ServeHTTP (build (gate # [invokes_next_once (traces ''h3'')])) (Wrapped 0) () quiet =
       Inr \<lparr>flags = [False], trace = [''h3'']\<rparr>"
proof -
  note t = C2_short_circuit[where bas = "[traces ''h1'']" and hk = gate
      and rest = "[invokes_next_once (traces ''h3'')]"
      and rest' = "[invokes_next_once (traces ''h3'')]"
      and cont = nil_func and body = "trace_only ''h2''"
      and pre = "map invokes_next_once [traces ''h1'']"
      and ops = spec_sinks and rw = "Wrapped 0" and r = "()" and s = quiet]
  have e: "entered [traces ''h1''] (Wrapped 0) () quiet =
     (Wrapped 0, (), \<lparr>flags = [False], trace = [''h1'']\<rparr>)"
    by (simp add: traces_def quiet_def)
  have en: "entered_ngo spec_sinks [traces ''h1''] (Wrapped 0) () quiet =
       Some (Wrapped 0, (), \<lparr>flags = [False], trace = [''h1'']\<rparr>)"
    by (simp add: traces_def quiet_def spec_sinks_def)
  have k: "skips_next gate (Wrapped 0) () \<lparr>flags = [False], trace = [''h1'']\<rparr>"
    by (simp add: skips_next_def gate_def)
  have h1: "case entered [traces ''h1''] (Wrapped 0) () quiet of
              (rw', r', s') \<Rightarrow> skips_next gate rw' r' s'"
    unfolding e using k by simp
  have h2: "case entered_ngo spec_sinks [traces ''h1''] (Wrapped 0) () quiet of None \<Rightarrow> True
            | Some (rw', r', s') \<Rightarrow> skips_next gate rw' r' s'"
    unfolding en using k by simp
  have v: "visit_until [traces ''h1''] (\<lambda>rw r s. Handler_ServeHTTP gate rw r nil_func s)
             (Wrapped 0) () quiet = Inr \<lparr>flags = [False], trace = [''h1'', ''stop'']\<rparr>"
    by (simp add: traces_def gate_def quiet_def)
  have w: "visit_until_ngo spec_sinks [traces ''h1'']
             (\<lambda>rw r s. if \<not> isResponseWriter spec_sinks rw then Inl TypeAssertion
                       else if Written spec_sinks rw s then Inr s
                       else Handler_ServeHTTP gate rw r nil_func s)
             (Wrapped 0) () quiet = Inr \<lparr>flags = [False], trace = [''h1'', ''stop'']\<rparr>"
    by (simp add: traces_def gate_def quiet_def spec_sinks_def)
  from t have "(case entered [traces ''h1''] (Wrapped 0) () quiet of
              (rw', r', s') \<Rightarrow> skips_next gate rw' r' s') \<longrightarrow>
      middleware_ServeHTTP (build (map invokes_next_once [traces ''h1''] @ gate # [invokes_next_once (traces ''h3'')])) (Wrapped 0) () quiet =
        visit_until [traces ''h1''] (\<lambda>rw r s. Handler_ServeHTTP gate rw r nil_func s) (Wrapped 0) () quiet
      \<and> middleware_ServeHTTP (build (map invokes_next_once [traces ''h1''] @ gate # [invokes_next_once (traces ''h3'')])) (Wrapped 0) () quiet =
          middleware_ServeHTTP (build (map invokes_next_once [traces ''h1''] @ gate # [invokes_next_once (traces ''h3'')])) (Wrapped 0) () quiet"
    by (elim conjE)
  with h1 have a: "middleware_ServeHTTP (build (map invokes_next_once [traces ''h1''] @ gate # [invokes_next_once (traces ''h3'')])) (Wrapped 0) () quiet =
        Inr \<lparr>flags = [False], trace = [''h1'', ''stop'']\<rparr>"
    unfolding v by (elim impE conjE)
  from t have "(case entered_ngo spec_sinks [traces ''h1''] (Wrapped 0) () quiet of None \<Rightarrow> True
            | Some (rw', r', s') \<Rightarrow> skips_next gate rw' r' s') \<longrightarrow>
      (\<exists>m m'. build_ngo 0 (map invokes_next_once [traces ''h1''] @ gate # [invokes_next_once (traces ''h3'')]) = Inr m
         \<and> build_ngo 0 (map invokes_next_once [traces ''h1''] @ gate # [invokes_next_once (traces ''h3'')]) = Inr m'
         \<and> middleware_ServeHTTP_ngo spec_sinks m (Wrapped 0) () quiet =
             visit_until_ngo spec_sinks [traces ''h1'']
               (\<lambda>rw r s. if \<not> isResponseWriter spec_sinks rw then Inl TypeAssertion
                         else if Written spec_sinks rw s then Inr s
                         else Handler_ServeHTTP gate rw r nil_func s) (Wrapped 0) () quiet
         \<and> middleware_ServeHTTP_ngo spec_sinks m (Wrapped 0) () quiet = middleware_ServeHTTP_ngo spec_sinks m' (Wrapped 0) () quiet)"
    by (elim conjE)
  with h2 have b: "\<exists>m. build_ngo 0
             (map invokes_next_once [traces ''h1''] @ gate # [invokes_next_once (traces ''h3'')]) = Inr m
         \<and> middleware_ServeHTTP_ngo spec_sinks m (Wrapped 0) () quiet =
             Inr \<lparr>flags = [False], trace = [''h1'', ''stop'']\<rparr>"
    unfolding w by blast
  have c: "middleware_ServeHTTP (build (gate # [invokes_next_once (traces ''h3'')])) (Wrapped 0) () quiet =
       Inr \<lparr>flags = [False], trace = [''h3'']\<rparr>"
    by (simp add: gate_def invokes_next_once_def traces_def quiet_def
          voidMiddleware_def newMiddleware_def)
  from e en k a b c show ?thesis by (intro conjI)
qed

subsection \<open>C3: the test of the written flag\<close>

text \<open>
  Claim C3, as amended. In \<^verbatim>\<open>src/negroni.go\<close> every node, the head of the chain
  included, invokes its handler only if the sink is a response writer whose written
  flag is false: entered with the flag set, a node returns without invoking anything and
  without a panic, whatever its handler; entered with the flag clear, it invokes its
  handler. So when the sink that dispatch has wrapped shows output written, dispatch
  invokes no handler and returns normally. In \<^verbatim>\<open>src/unnamed/part_000\<close> nothing tests
  the flag: dispatch wraps the sink and invokes the handler of the head of the chain,
  whatever the flag.
\<close>

theorem C3_written_guard:
  "(isResponseWriter ops w \<and> Written ops w s \<longrightarrow> middleware_ServeHTTP_ngo ops m w r s = Inr s)
   \<and> (isResponseWriter ops w \<and> \<not> Written ops w s \<longrightarrow>
        middleware_ServeHTTP_ngo ops (Middleware_ngo h (Some m)) w r s =
          Handler_ServeHTTP h w r (middleware_ServeHTTP_ngo ops m) s)
   \<and> (n < length (objs \<sigma>)
        \<and> isResponseWriter ops (fst (NewResponseWriter ops rw s))
        \<and> Written ops (fst (NewResponseWriter ops rw s)) (snd (NewResponseWriter ops rw s)) \<longrightarrow>
        Negroni_ServeHTTP_ngo ops n \<sigma> rw r s = Inr (snd (NewResponseWriter ops rw s)))
   \<and> (n' < length (objs \<tau>) \<longrightarrow>
        Negroni_ServeHTTP ops n' \<tau> rw r s =
          Handler_ServeHTTP (handler (middleware (objs \<tau> ! n')))
            (fst (NewResponseWriter ops rw s)) r
            (case nextfn (middleware (objs \<tau> ! n')) of
               None \<Rightarrow> nil_func
             | Some nx \<Rightarrow> middleware_ServeHTTP nx)
            (snd (NewResponseWriter ops rw s)))"
proof (intro conjI impI)
  show "middleware_ServeHTTP_ngo ops m w r s = Inr s"
    if "isResponseWriter ops w \<and> Written ops w s"
    using that by (cases m) simp
  show "middleware_ServeHTTP_ngo ops (Middleware_ngo h (Some m)) w r s =
          Handler_ServeHTTP h w r (middleware_ServeHTTP_ngo ops m) s"
    if "isResponseWriter ops w \<and> \<not> Written ops w s"
    using that by simp
  show "Negroni_ServeHTTP_ngo ops n \<sigma> rw r s = Inr (snd (NewResponseWriter ops rw s))"
    if "n < length (objs \<sigma>)
        \<and> isResponseWriter ops (fst (NewResponseWriter ops rw s))
        \<and> Written ops (fst (NewResponseWriter ops rw s)) (snd (NewResponseWriter ops rw s))"
    using that
    by (cases "middleware_ngo (objs \<sigma> ! n)")
       (simp add: Negroni_ServeHTTP_ngo_def case_prod_beta)
  show "Negroni_ServeHTTP ops n' \<tau> rw r s =
          Handler_ServeHTTP (handler (middleware (objs \<tau> ! n')))
            (fst (NewResponseWriter ops rw s)) r
            (case nextfn (middleware (objs \<tau> ! n')) of
               None \<Rightarrow> nil_func
             | Some nx \<Rightarrow> middleware_ServeHTTP nx)
            (snd (NewResponseWriter ops rw s))"
    if "n' < length (objs \<tau>)"
    using that
    by (cases "middleware (objs \<tau> ! n')")
       (simp add: Negroni_ServeHTTP_def case_prod_beta)
qed

text \<open>
  A pipeline of \<^verbatim>\<open>src/negroni.go\<close> with one handler, dispatched with a sink that is
  already written: the handler is not invoked and the state is unchanged.
\<close>

theorem C3_written_guard_witness:
  "Use_ngo doubling 0 one_handler (snd (New_ngo empty_store)) = Inr pipeline_h_ngo
   \<and> 0 < length (objs pipeline_h_ngo)
   \<and> isResponseWriter spec_sinks (fst (NewResponseWriter spec_sinks (Wrapped 0) spoken))
   \<and> Written spec_sinks (fst (NewResponseWriter spec_sinks (Wrapped 0) spoken))
        (snd (NewResponseWriter spec_sinks (Wrapped 0) spoken))
   \<and> Negroni_ServeHTTP_ngo spec_sinks 0 pipeline_h_ngo (Wrapped 0) () spoken = Inr spoken"
proof -
  have n: "0 < length (objs pipeline_h_ngo)"
    by (simp add: pipeline_h_ngo_def)
  have i: "isResponseWriter spec_sinks (fst (NewResponseWriter spec_sinks (Wrapped 0) spoken))"
    by (simp add: spec_sinks_def)
  have w: "Written spec_sinks (fst (NewResponseWriter spec_sinks (Wrapped 0) spoken))
        (snd (NewResponseWriter spec_sinks (Wrapped 0) spoken))"
    by (simp add: spec_sinks_def spoken_def)
  have e: "snd (NewResponseWriter spec_sinks (Wrapped 0) spoken) = spoken"
    by (simp add: spec_sinks_def)
  from C3_written_guard[where ops = spec_sinks and n = 0 and \<sigma> = pipeline_h_ngo
      and rw = "Wrapped 0" and r = "()" and s = spoken and w = "Wrapped 0"
      and m = "chain_ngo [one_handler]" and h = one_handler and n' = 0 and \<tau> = pipeline_h]
  have "0 < length (objs pipeline_h_ngo)
        \<and> isResponseWriter spec_sinks (fst (NewResponseWriter spec_sinks (Wrapped 0) spoken))
        \<and> Written spec_sinks (fst (NewResponseWriter spec_sinks (Wrapped 0) spoken))
             (snd (NewResponseWriter spec_sinks (Wrapped 0) spoken)) \<longrightarrow>
        Negroni_ServeHTTP_ngo spec_sinks 0 pipeline_h_ngo (Wrapped 0) () spoken =
          Inr (snd (NewResponseWriter spec_sinks (Wrapped 0) spoken))"
    by (elim conjE)
  with n i w have "Negroni_ServeHTTP_ngo spec_sinks 0 pipeline_h_ngo (Wrapped 0) () spoken =
          Inr (snd (NewResponseWriter spec_sinks (Wrapped 0) spoken))"
    by blast
  then have c: "Negroni_ServeHTTP_ngo spec_sinks 0 pipeline_h_ngo (Wrapped 0) () spoken = Inr spoken"
    by (simp only: e)
  from pipeline_h_ngo_reached n i w c show ?thesis by (intro conjI)
qed

text \<open>
  Claim C3 as stated fails for \<^verbatim>\<open>src/unnamed/part_000\<close>: the sink is a wrapper that
  shows output written, wrapping leaves it as it is, and dispatch invokes the handler
  all the same (the trace holds \<open>h\<close> afterwards).
\<close>

theorem C3_counterexample:
  "Use doubling 0 one_handler (snd (New nil_slice empty_store)) = Inr pipeline_h
   \<and> Written spec_sinks (Wrapped 0) spoken
   \<and> NewResponseWriter spec_sinks (Wrapped 0) spoken = (Wrapped 0, spoken)
   \<and> Negroni_ServeHTTP spec_sinks 0 pipeline_h (Wrapped 0) () spoken =
        Inr \<lparr>flags = [True], trace = [''h'']\<rparr>"
proof (intro conjI)
  show "Use doubling 0 one_handler (snd (New nil_slice empty_store)) = Inr pipeline_h"
    by (rule pipeline_h_reached)
  show "Written spec_sinks (Wrapped 0) spoken"
    by (simp add: spec_sinks_def spoken_def)
  show "NewResponseWriter spec_sinks (Wrapped 0) spoken = (Wrapped 0, spoken)"
    by (simp add: spec_sinks_def)
  show "Negroni_ServeHTTP spec_sinks 0 pipeline_h (Wrapped 0) () spoken =
        Inr \<lparr>flags = [True], trace = [''h'']\<rparr>"
    by (simp add: Negroni_ServeHTTP_def pipeline_h_def spec_sinks_def spoken_def one_handler_def
          invokes_next_once_def traces_def voidMiddleware_def newMiddleware_def)
qed

subsection \<open>C4: Use and the nil handler\<close>

text \<open>
  Claim C4, as amended. In \<^verbatim>\<open>src/unnamed/part_000\<close>, \<^verbatim>\<open>Use\<close> on a nil handler panics
  with \<^verbatim>\<open>"handler cannot be nil"\<close> in the call itself, whatever the pipeline; on a
  handler that is not nil it appends the handler to the list and installs the chain
  built from the new list before it returns. In \<^verbatim>\<open>src/negroni.go\<close>, \<^verbatim>\<open>Use\<close> has no
  nil check: it appends any handler, nil included, and installs the chain built from
  the new list before it returns; the node of a nil handler panics only when a dispatch
  enters it with an unwritten sink.
\<close>

theorem C4_Use_rejects_nil:
  "Use g n NilHandler \<sigma> = Inl (PanicMsg ''handler cannot be nil'')
   \<and> (n < length (objs \<sigma>) \<and> wf_slice \<sigma> (handlers (objs \<sigma> ! n)) \<longrightarrow>
        (\<exists>\<sigma>'. Use g n (HandlerFunc f) \<sigma> = Inr \<sigma>'
           \<and> elems \<sigma>' (handlers (objs \<sigma>' ! n)) =
               elems \<sigma> (handlers (objs \<sigma> ! n)) @ [HandlerFunc f]
           \<and> middleware (objs \<sigma>' ! n) = build (elems \<sigma>' (handlers (objs \<sigma>' ! n)))))
   \<and> (n' < length (objs \<tau>) \<and> wf_slice \<tau> (handlers_ngo (objs \<tau> ! n')) \<longrightarrow>
        (\<exists>\<tau>'. Use_ngo g n' h \<tau> = Inr \<tau>'
           \<and> elems \<tau>' (handlers_ngo (objs \<tau>' ! n')) =
               elems \<tau> (handlers_ngo (objs \<tau> ! n')) @ [h]
           \<and> build_ngo 0 (elems \<tau>' (handlers_ngo (objs \<tau>' ! n'))) =
               Inr (middleware_ngo (objs \<tau>' ! n'))))
   \<and> middleware_ServeHTTP_ngo ops (Middleware_ngo NilHandler (Some m)) rw r s =
       (if \<not> isResponseWriter ops rw then Inl TypeAssertion
        else if Written ops rw s then Inr s else Inl NilDereference)"
proof (intro conjI impI)
  show "Use g n NilHandler \<sigma> = Inl (PanicMsg ''handler cannot be nil'')"
    by (rule Use_nil)
  show "\<exists>\<sigma>'. Use g n (HandlerFunc f) \<sigma> = Inr \<sigma>'
           \<and> elems \<sigma>' (handlers (objs \<sigma>' ! n)) =
               elems \<sigma> (handlers (objs \<sigma> ! n)) @ [HandlerFunc f]
           \<and> middleware (objs \<sigma>' ! n) = build (elems \<sigma>' (handlers (objs \<sigma>' ! n)))"
    if a: "n < length (objs \<sigma>) \<and> wf_slice \<sigma> (handlers (objs \<sigma> ! n))"
  proof -
    from a have n: "n < length (objs \<sigma>)" and wf: "wf_slice \<sigma> (handlers (objs \<sigma> ! n))"
      by simp_all
    show ?thesis
      using Use_eq[OF n, of g f] after_Use_elems[OF n wf, of g "HandlerFunc f"]
        after_Use_middleware[OF n, of g "HandlerFunc f"]
      by simp
  qed
  show "\<exists>\<tau>'. Use_ngo g n' h \<tau> = Inr \<tau>'
           \<and> elems \<tau>' (handlers_ngo (objs \<tau>' ! n')) =
               elems \<tau> (handlers_ngo (objs \<tau> ! n')) @ [h]
           \<and> build_ngo 0 (elems \<tau>' (handlers_ngo (objs \<tau>' ! n'))) =
               Inr (middleware_ngo (objs \<tau>' ! n'))"
    if a: "n' < length (objs \<tau>) \<and> wf_slice \<tau> (handlers_ngo (objs \<tau> ! n'))"
  proof -
    from a have n: "n' < length (objs \<tau>)" and wf: "wf_slice \<tau> (handlers_ngo (objs \<tau> ! n'))"
      by simp_all
    show ?thesis
      using Use_ngo_eq[OF n wf, of g h] after_Use_ngo_elems[OF n wf, of g h]
        after_Use_ngo_middleware[OF n, of g h]
      by (simp add: build_ngo_0)
  qed
  show "middleware_ServeHTTP_ngo ops (Middleware_ngo NilHandler (Some m)) rw r s =
       (if \<not> isResponseWriter ops rw then Inl TypeAssertion
        else if Written ops rw s then Inr s else Inl NilDereference)"
    by simp
qed

text \<open>
  On a pipeline fresh from \<^verbatim>\<open>New()\<close>: \<^verbatim>\<open>Use\<close> of a handler in
  \<^verbatim>\<open>src/unnamed/part_000\<close>, and \<^verbatim>\<open>Use\<close> of the nil handler in \<^verbatim>\<open>src/negroni.go\<close>.
\<close>

theorem C4_Use_rejects_nil_witness:
  "0 < length (objs before_h) \<and> wf_slice before_h (handlers (objs before_h ! 0))
   \<and> (\<exists>\<sigma>'. Use doubling 0 (HandlerFunc (\<lambda>rw r next s. Inr s)) before_h = Inr \<sigma>'
         \<and> elems \<sigma>' (handlers (objs \<sigma>' ! 0)) = [HandlerFunc (\<lambda>rw r next s. Inr s)]
         \<and> middleware (objs \<sigma>' ! 0) = build (elems \<sigma>' (handlers (objs \<sigma>' ! 0))))
   \<and> 0 < length (objs before_h_ngo) \<and> wf_slice before_h_ngo (handlers_ngo (objs before_h_ngo ! 0))
   \<and> (\<exists>\<tau>'. Use_ngo doubling 0 NilHandler before_h_ngo = Inr \<tau>'
         \<and> elems \<tau>' (handlers_ngo (objs \<tau>' ! 0)) = [NilHandler]
         \<and> build_ngo 0 (elems \<tau>' (handlers_ngo (objs \<tau>' ! 0))) =
             Inr (middleware_ngo (objs \<tau>' ! 0)))"
proof -
  have n: "0 < length (objs before_h)"
    and wf: "wf_slice before_h (handlers (objs before_h ! 0))"
    and e: "elems before_h (handlers (objs before_h ! 0)) = []"
    by (simp_all add: before_h_def New_def empty_store_def wf_nil_slice elems_nil_slice)
  have n': "0 < length (objs before_h_ngo)"
    and wf': "wf_slice before_h_ngo (handlers_ngo (objs before_h_ngo ! 0))"
    and e': "elems before_h_ngo (handlers_ngo (objs before_h_ngo ! 0)) = []"
    by (simp_all add: before_h_ngo_def New_ngo_def empty_store_def wf_nil_slice elems_nil_slice)
  note t = C4_Use_rejects_nil[where g = doubling and n = 0 and \<sigma> = before_h
      and f = "\<lambda>rw r next s. Inr s" and n' = 0 and \<tau> = before_h_ngo and h = NilHandler
      and ops = spec_sinks and m = sentinel_ngo and rw = "Wrapped 0" and r = "()" and s = quiet]
  from t have "0 < length (objs before_h) \<and> wf_slice before_h (handlers (objs before_h ! 0)) \<longrightarrow>
        (\<exists>\<sigma>'. Use doubling 0 (HandlerFunc (\<lambda>rw r next s. Inr s)) before_h = Inr \<sigma>'
           \<and> elems \<sigma>' (handlers (objs \<sigma>' ! 0)) =
               elems before_h (handlers (objs before_h ! 0)) @ [HandlerFunc (\<lambda>rw r next s. Inr s)]
           \<and> middleware (objs \<sigma>' ! 0) = build (elems \<sigma>' (handlers (objs \<sigma>' ! 0))))"
    by (elim conjE)
  with n wf have a: "\<exists>\<sigma>'. Use doubling 0 (HandlerFunc (\<lambda>rw r next s. Inr s)) before_h = Inr \<sigma>'
         \<and> elems \<sigma>' (handlers (objs \<sigma>' ! 0)) = [HandlerFunc (\<lambda>rw r next s. Inr s)]
         \<and> middleware (objs \<sigma>' ! 0) = build (elems \<sigma>' (handlers (objs \<sigma>' ! 0)))"
    by (simp add: e)
  from t have "0 < length (objs before_h_ngo) \<and> wf_slice before_h_ngo (handlers_ngo (objs before_h_ngo ! 0)) \<longrightarrow>
        (\<exists>\<tau>'. Use_ngo doubling 0 NilHandler before_h_ngo = Inr \<tau>'
           \<and> elems \<tau>' (handlers_ngo (objs \<tau>' ! 0)) =
               elems before_h_ngo (handlers_ngo (objs before_h_ngo ! 0)) @ [NilHandler]
           \<and> build_ngo 0 (elems \<tau>' (handlers_ngo (objs \<tau>' ! 0))) =
               Inr (middleware_ngo (objs \<tau>' ! 0)))"
    by (elim conjE)
  with n' wf' have b: "\<exists>\<tau>'. Use_ngo doubling 0 NilHandler before_h_ngo = Inr \<tau>'
         \<and> elems \<tau>' (handlers_ngo (objs \<tau>' ! 0)) = [NilHandler]
         \<and> build_ngo 0 (elems \<tau>' (handlers_ngo (objs \<tau>' ! 0))) =
             Inr (middleware_ngo (objs \<tau>' ! 0))"
    by (simp add: e')
  from n wf a n' wf' b show ?thesis by (intro conjI)
qed

text \<open>
  Claim C4 as stated fails for \<^verbatim>\<open>src/negroni.go\<close>: \<^verbatim>\<open>Use(nil)\<close> returns normally
  with the nil handler registered, and the panic comes when a request is dispatched.
\<close>

theorem C4_counterexample:
  "Use_ngo doubling 0 NilHandler (snd (New_ngo empty_store)) = Inr pipeline_nil_ngo
   \<and> Negroni_ServeHTTP_ngo spec_sinks 0 pipeline_nil_ngo (Surface 0) () \<lparr>flags = [], trace = []\<rparr>
       = Inl NilDereference"
proof (intro conjI)
  show "Use_ngo doubling 0 NilHandler (snd (New_ngo empty_store)) = Inr pipeline_nil_ngo"
    by (rule pipeline_nil_ngo_reached)
  show "Negroni_ServeHTTP_ngo spec_sinks 0 pipeline_nil_ngo (Surface 0) () \<lparr>flags = [], trace = []\<rparr>
       = Inl NilDereference"
    by (simp add: Negroni_ServeHTTP_ngo_def pipeline_nil_ngo_def spec_sinks_def chain_ngo_def
          sentinel_ngo_def)
qed

subsection \<open>C5: appending one at a time equals building at once\<close>

text \<open>
  Claim C5, as amended (\<^verbatim>\<open>src/unnamed/part_000\<close>). Let \<open>hs\<close> be a list of handlers.
  \<^verbatim>\<open>New\<close> on a slice that shows \<open>hs\<close> leaves a pipeline that shows the list \<open>hs\<close>
  and holds the chain \<open>build hs\<close>. When no handler of \<open>hs\<close> is nil, \<^verbatim>\<open>New()\<close>
  followed by \<^verbatim>\<open>Use\<close> of each handler of \<open>hs\<close> in turn returns, and leaves a
  pipeline with the same list and the same chain; the two dispatch alike for every
  sink, request and state, so they visit the same handlers in the same order. When a
  handler of \<open>hs\<close> is nil, the calls of \<^verbatim>\<open>Use\<close> do not yield a chain: the call that
  is given the first nil handler panics with \<open>handler cannot be nil\<close>.
\<close>

theorem C5_incremental_equals_at_once:
  assumes "New nil_slice \<sigma> = (p, \<sigma>0)"
    and "elems \<tau> sl = hs"
    and "New sl \<tau> = (q, \<tau>')"
  shows "elems \<tau>' (handlers (objs \<tau>' ! q)) = hs
         \<and> middleware (objs \<tau>' ! q) = build hs
         \<and> (NilHandler \<notin> set hs \<longrightarrow>
              (\<exists>\<sigma>'. Use_all g p hs \<sigma>0 = Inr \<sigma>'
                 \<and> elems \<sigma>' (handlers (objs \<sigma>' ! p)) = hs
                 \<and> middleware (objs \<sigma>' ! p) = build hs
                 \<and> (\<forall>ops rw r s.
                       Negroni_ServeHTTP ops p \<sigma>' rw r s = Negroni_ServeHTTP ops q \<tau>' rw r s)))
         \<and> (NilHandler \<in> set hs \<longrightarrow>
              Use_all g p hs \<sigma>0 = Inl (PanicMsg ''handler cannot be nil''))"
proof -
  have "shows_list (snd (New nil_slice \<sigma>)) (fst (New nil_slice \<sigma>)) (elems \<sigma> nil_slice)"
    by (simp add: shows_list_New wf_nil_slice)
  then have s0: "shows_list \<sigma>0 p []"
    by (simp add: elems_nil_slice assms(1))
  then have p0: "p < length (objs \<sigma>0)"
    by (simp add: shows_list_def)
  have q: "q < length (objs \<tau>')" "elems \<tau>' (handlers (objs \<tau>' ! q)) = hs"
    "middleware (objs \<tau>' ! q) = build hs"
    using assms(2,3) by (auto simp: New_def elems_def)
  have one: "\<exists>\<sigma>'. Use_all g p hs \<sigma>0 = Inr \<sigma>'
                 \<and> elems \<sigma>' (handlers (objs \<sigma>' ! p)) = hs
                 \<and> middleware (objs \<sigma>' ! p) = build hs
                 \<and> (\<forall>ops rw r s.
                       Negroni_ServeHTTP ops p \<sigma>' rw r s = Negroni_ServeHTTP ops q \<tau>' rw r s)"
    if nn: "NilHandler \<notin> set hs"
  proof -
    from Use_all_shows[OF s0 nn, of g]
    obtain \<sigma>' where u: "Use_all g p hs \<sigma>0 = Inr \<sigma>'" and s: "shows_list \<sigma>' p hs"
      by auto
    from s have p: "p < length (objs \<sigma>')" "elems \<sigma>' (handlers (objs \<sigma>' ! p)) = hs"
      "middleware (objs \<sigma>' ! p) = build hs"
      by (simp_all add: shows_list_def)
    have d: "Negroni_ServeHTTP ops p \<sigma>' rw r s = Negroni_ServeHTTP ops q \<tau>' rw r s" for ops rw r s
      using p(1) q(1) by (simp add: Negroni_ServeHTTP_def p(3) q(3))
    from u p(2,3) d show ?thesis by blast
  qed
  have two: "Use_all g p hs \<sigma>0 = Inl (PanicMsg ''handler cannot be nil'')"
    if "NilHandler \<in> set hs"
    using Use_all_nil[OF p0 that] .
  from q(2,3) one two show ?thesis by (intro conjI impI)
qed

text \<open>
  Three tracing handlers, appended one at a time under the doubling policy and given
  at once: both pipelines leave the trace \<open>h1, h2, h3\<close>. And the list that holds only
  the nil handler: \<^verbatim>\<open>New\<close> builds a chain from it, \<^verbatim>\<open>Use\<close> panics.
\<close>

theorem C5_incremental_equals_at_once_witness:
  "NilHandler \<notin> set three_handlers
   \<and> New nil_slice empty_store = (0, before_h)
   \<and> elems three_in_array \<lparr>sptr = 0, soff = 0, slen = 3, scap = 3\<rparr> = three_handlers
   \<and> New \<lparr>sptr = 0, soff = 0, slen = 3, scap = 3\<rparr> three_in_array = (0, three_at_once)
   \<and> (\<exists>\<sigma>'. Use_all doubling 0 three_handlers before_h = Inr \<sigma>'
         \<and> middleware (objs \<sigma>' ! 0) = build three_handlers
         \<and> Negroni_ServeHTTP spec_sinks 0 \<sigma>' (Wrapped 0) () quiet =
             Inr \<lparr>flags = [False], trace = [''h1'', ''h2'', ''h3'']\<rparr>
         \<and> Negroni_ServeHTTP spec_sinks 0 three_at_once (Wrapped 0) () quiet =
             Inr \<lparr>flags = [False], trace = [''h1'', ''h2'', ''h3'']\<rparr>)
   \<and> NilHandler \<in> set [NilHandler :: (sink, unit, world) Handler]
   \<and> elems nil_in_array \<lparr>sptr = 0, soff = 0, slen = 1, scap = 1\<rparr> = [NilHandler]
   \<and> New \<lparr>sptr = 0, soff = 0, slen = 1, scap = 1\<rparr> nil_in_array = (0, nil_at_once)
   \<and> middleware (objs nil_at_once ! 0) = build [NilHandler]
   \<and> Use_all doubling 0 [NilHandler] before_h = Inl (PanicMsg ''handler cannot be nil'')"
proof -
  let ?sl = "\<lparr>sptr = 0, soff = 0, slen = 3, scap = 3\<rparr>"
  let ?s1 = "\<lparr>sptr = 0, soff = 0, slen = 1, scap = 1\<rparr>"
  have h1: "NilHandler \<notin> set three_handlers"
    by (simp add: three_handlers_def invokes_next_once_def)
  have h2: "New nil_slice empty_store = (0, before_h)"
    by (simp add: New_def before_h_def empty_store_def)
  have h3: "elems three_in_array ?sl = three_handlers"
    by (simp add: elems_def three_in_array_def three_handlers_def)
  have h4: "New ?sl three_in_array = (0, three_at_once)"
    by (simp add: New_def three_at_once_def three_in_array_def)
  have n1: "NilHandler \<in> set [NilHandler :: (sink, unit, world) Handler]"
    by simp
  have n3: "elems nil_in_array ?s1 = [NilHandler]"
    by (simp add: elems_def nil_in_array_def)
  have n4: "New ?s1 nil_in_array = (0, nil_at_once)"
    by (simp add: New_def nil_at_once_def nil_in_array_def)
  have run: "Negroni_ServeHTTP spec_sinks 0 three_at_once (Wrapped 0) () quiet =
             Inr \<lparr>flags = [False], trace = [''h1'', ''h2'', ''h3'']\<rparr>"
    by (simp add: Negroni_ServeHTTP_def three_at_once_def New_def three_in_array_def elems_def
          three_handlers_def spec_sinks_def quiet_def invokes_next_once_def traces_def
          voidMiddleware_def newMiddleware_def)
  note t = C5_incremental_equals_at_once[OF h2 h3 h4, of doubling]
  note u = C5_incremental_equals_at_once[OF h2 n3 n4, of doubling]
  from t have "NilHandler \<notin> set three_handlers \<longrightarrow>
              (\<exists>\<sigma>'. Use_all doubling 0 three_handlers before_h = Inr \<sigma>'
                 \<and> elems \<sigma>' (handlers (objs \<sigma>' ! 0)) = three_handlers
                 \<and> middleware (objs \<sigma>' ! 0) = build three_handlers
                 \<and> (\<forall>ops rw r s.
                       Negroni_ServeHTTP ops 0 \<sigma>' rw r s = Negroni_ServeHTTP ops 0 three_at_once rw r s))"
    by (elim conjE)
  with h1 run
  have a: "\<exists>\<sigma>'. Use_all doubling 0 three_handlers before_h = Inr \<sigma>'
         \<and> middleware (objs \<sigma>' ! 0) = build three_handlers
         \<and> Negroni_ServeHTTP spec_sinks 0 \<sigma>' (Wrapped 0) () quiet =
             Inr \<lparr>flags = [False], trace = [''h1'', ''h2'', ''h3'']\<rparr>
         \<and> Negroni_ServeHTTP spec_sinks 0 three_at_once (Wrapped 0) () quiet =
             Inr \<lparr>flags = [False], trace = [''h1'', ''h2'', ''h3'']\<rparr>"
    by auto
  from u have m: "middleware (objs nil_at_once ! 0) = build [NilHandler]"
    by (elim conjE)
  from u have "NilHandler \<in> set [NilHandler :: (sink, unit, world) Handler] \<longrightarrow>
      Use_all doubling 0 [NilHandler] before_h = Inl (PanicMsg ''handler cannot be nil'')"
    by (elim conjE)
  with n1 have b: "Use_all doubling 0 [NilHandler] before_h = Inl (PanicMsg ''handler cannot be nil'')"
    by (elim impE)
  from h1 h2 h3 h4 a n1 n3 n4 m b show ?thesis by (intro conjI)
qed

text \<open>
  Claim C5 as stated fails on the list that holds only the nil handler. Constructing
  the pipeline from the list at once returns a pipeline whose chain is
  \<open>build [NilHandler]\<close> (a dispatch through it panics with a nil dereference);
  constructing an empty pipeline and appending the nil handler via \<^verbatim>\<open>Use\<close> panics
  in \<^verbatim>\<open>Use\<close> and yields no chain.
\<close>

theorem C5_counterexample:
  "New nil_slice empty_store = (0, before_h)
   \<and> Use_all doubling 0 [NilHandler] before_h = Inl (PanicMsg ''handler cannot be nil'')
   \<and> elems nil_in_array \<lparr>sptr = 0, soff = 0, slen = 1, scap = 1\<rparr> = [NilHandler]
   \<and> New \<lparr>sptr = 0, soff = 0, slen = 1, scap = 1\<rparr> nil_in_array = (0, nil_at_once)
   \<and> middleware (objs nil_at_once ! 0) = build [NilHandler]
   \<and> Negroni_ServeHTTP spec_sinks 0 nil_at_once (Surface 0) () quiet = Inl NilDereference"
  by (simp add: New_def before_h_def empty_store_def Use_nil elems_def nil_in_array_def
        nil_at_once_def Negroni_ServeHTTP_def spec_sinks_def quiet_def newMiddleware_def
        del: build.simps)
     (simp add: newMiddleware_def voidMiddleware_def)

subsection \<open>C6: With derives an independent pipeline\<close>

text \<open>
  Claim C6 (\<^verbatim>\<open>src/unnamed/part_000\<close>). For a pipeline \<open>p\<close> and a slice \<open>hs\<close> of
  additional handlers (which may share a backing array with the list of \<open>p\<close>),
  \<^verbatim>\<open>With\<close> returns a new pipeline \<open>q\<close>, at an address no pipeline had before; its list
  is the list of \<open>p\<close> followed by the additional handlers, and its chain is built from
  that list. \<^verbatim>\<open>With\<close> changes no pipeline and no backing array that existed before; in
  particular the struct of \<open>p\<close> (slice header and chain) and the list \<open>p\<close> shows are as
  they were. A later \<^verbatim>\<open>Use\<close> on \<open>q\<close>, and any number of later calls of \<^verbatim>\<open>Use\<close> on
  \<open>q\<close>, leave the struct of \<open>p\<close>, the list it shows and every backing array that
  existed before \<^verbatim>\<open>With\<close> unchanged.
\<close>

theorem C6_With_is_independent:
  assumes "p < length (objs \<sigma>)"
    and "wf_slice \<sigma> (handlers (objs \<sigma> ! p))"
    and "wf_slice \<sigma> hs"
  shows "\<exists>q \<sigma>1. With g p hs \<sigma> = Inr (q, \<sigma>1)
           \<and> q = length (objs \<sigma>)
           \<and> take (length (objs \<sigma>)) (objs \<sigma>1) = objs \<sigma>
           \<and> take (length (arrays \<sigma>)) (arrays \<sigma>1) = arrays \<sigma>
           \<and> elems \<sigma>1 (handlers (objs \<sigma>1 ! q)) = elems \<sigma> (handlers (objs \<sigma> ! p)) @ elems \<sigma> hs
           \<and> middleware (objs \<sigma>1 ! q) = build (elems \<sigma> (handlers (objs \<sigma> ! p)) @ elems \<sigma> hs)
           \<and> objs \<sigma>1 ! p = objs \<sigma> ! p
           \<and> elems \<sigma>1 (handlers (objs \<sigma> ! p)) = elems \<sigma> (handlers (objs \<sigma> ! p))
           \<and> (\<exists>\<sigma>2. Use g q (HandlerFunc f) \<sigma>1 = Inr \<sigma>2
                 \<and> objs \<sigma>2 ! p = objs \<sigma> ! p
                 \<and> elems \<sigma>2 (handlers (objs \<sigma> ! p)) = elems \<sigma> (handlers (objs \<sigma> ! p))
                 \<and> take (length (arrays \<sigma>)) (arrays \<sigma>2) = arrays \<sigma>
                 \<and> elems \<sigma>2 (handlers (objs \<sigma>2 ! q)) =
                     elems \<sigma> (handlers (objs \<sigma> ! p)) @ elems \<sigma> hs @ [HandlerFunc f])
           \<and> (NilHandler \<notin> set later \<longrightarrow>
                (\<exists>\<sigma>2. Use_all g q later \<sigma>1 = Inr \<sigma>2
                   \<and> objs \<sigma>2 ! p = objs \<sigma> ! p
                   \<and> elems \<sigma>2 (handlers (objs \<sigma> ! p)) = elems \<sigma> (handlers (objs \<sigma> ! p))
                   \<and> take (length (arrays \<sigma>)) (arrays \<sigma>2) = arrays \<sigma>))"
proof -
  let ?q = "length (objs \<sigma>)"
  let ?L = "length (arrays \<sigma>)"
  let ?h = "HandlerFunc f"
  from With_result[OF assms, of g]
  obtain \<sigma>1 where W: "With g p hs \<sigma> = Inr (?q, \<sigma>1)"
    and o1: "take ?q (objs \<sigma>1) = objs \<sigma>"
    and a1: "take ?L (arrays \<sigma>1) = arrays \<sigma>"
    and sp: "?L \<le> sptr (handlers (objs \<sigma>1 ! ?q))"
    and sh: "shows_list \<sigma>1 ?q (elems \<sigma> (handlers (objs \<sigma> ! p)) @ elems \<sigma> hs)"
    by auto
  from sh have q: "?q < length (objs \<sigma>1)" and wfq: "wf_slice \<sigma>1 (handlers (objs \<sigma>1 ! ?q))"
    and eq: "elems \<sigma>1 (handlers (objs \<sigma>1 ! ?q)) = elems \<sigma> (handlers (objs \<sigma> ! p)) @ elems \<sigma> hs"
    and mq: "middleware (objs \<sigma>1 ! ?q) = build (elems \<sigma> (handlers (objs \<sigma> ! p)) @ elems \<sigma> hs)"
    by (simp_all add: shows_list_def)
  have p1: "objs \<sigma>1 ! p = objs \<sigma> ! p"
    using o1 assms(1) by (metis nth_take)
  have e1: "elems \<sigma>1 (handlers (objs \<sigma> ! p)) = elems \<sigma> (handlers (objs \<sigma> ! p))"
    using elems_prefix[OF a1 assms(2)] .
  have L1: "?L \<le> length (arrays \<sigma>1)"
  proof -
    have "length (take ?L (arrays \<sigma>1)) = ?L" using a1 by simp
    then show ?thesis by simp
  qed
  have pq: "p \<noteq> ?q" using assms(1) by simp
  let ?\<sigma>2 = "after_Use g ?q ?h \<sigma>1"
  have U: "Use g ?q ?h \<sigma>1 = Inr ?\<sigma>2"
    using Use_eq[OF q] .
  have p2: "objs ?\<sigma>2 ! p = objs \<sigma> ! p"
    using after_Use_other[OF pq, of g ?h \<sigma>1] p1 by simp
  have a2: "take ?L (arrays ?\<sigma>2) = arrays \<sigma>"
    using after_Use_prefix[OF sp L1, of g ?h] a1 by simp
  have e2: "elems ?\<sigma>2 (handlers (objs \<sigma> ! p)) = elems \<sigma> (handlers (objs \<sigma> ! p))"
    using elems_prefix[OF a2 assms(2)] .
  have eq2: "elems ?\<sigma>2 (handlers (objs ?\<sigma>2 ! ?q)) =
               elems \<sigma> (handlers (objs \<sigma> ! p)) @ elems \<sigma> hs @ [?h]"
    using after_Use_elems[OF q wfq, of g ?h] eq by simp
  have one: "\<exists>\<sigma>2. Use g ?q ?h \<sigma>1 = Inr \<sigma>2
                 \<and> objs \<sigma>2 ! p = objs \<sigma> ! p
                 \<and> elems \<sigma>2 (handlers (objs \<sigma> ! p)) = elems \<sigma> (handlers (objs \<sigma> ! p))
                 \<and> take ?L (arrays \<sigma>2) = arrays \<sigma>
                 \<and> elems \<sigma>2 (handlers (objs \<sigma>2 ! ?q)) =
                     elems \<sigma> (handlers (objs \<sigma> ! p)) @ elems \<sigma> hs @ [?h]"
    using U p2 e2 a2 eq2 by blast
  have many: "\<exists>\<sigma>2. Use_all g ?q later \<sigma>1 = Inr \<sigma>2
                   \<and> objs \<sigma>2 ! p = objs \<sigma> ! p
                   \<and> elems \<sigma>2 (handlers (objs \<sigma> ! p)) = elems \<sigma> (handlers (objs \<sigma> ! p))
                   \<and> take ?L (arrays \<sigma>2) = arrays \<sigma>" if nn: "NilHandler \<notin> set later"
  proof -
    from Use_all_prefix[OF q sp L1 nn, of g]
    obtain \<sigma>2 where u: "Use_all g ?q later \<sigma>1 = Inr \<sigma>2"
      and a: "take ?L (arrays \<sigma>2) = take ?L (arrays \<sigma>1)"
      and o: "\<forall>m. m \<noteq> ?q \<longrightarrow> objs \<sigma>2 ! m = objs \<sigma>1 ! m"
      by auto
    from a a1 have a': "take ?L (arrays \<sigma>2) = arrays \<sigma>" by simp
    from o pq p1 have "objs \<sigma>2 ! p = objs \<sigma> ! p" by simp
    with u a' elems_prefix[OF a' assms(2)] show ?thesis by blast
  qed
  from W o1 a1 eq mq p1 e1 one many show ?thesis by blast
qed

text \<open>
  \<^verbatim>\<open>With\<close> on a pipeline of one handler, with the pipeline's own slice as the
  additional handlers, and a \<^verbatim>\<open>Use\<close> on the derived pipeline.
\<close>

theorem C6_With_is_independent_witness:
  "0 < length (objs pipeline_h)
   \<and> wf_slice pipeline_h (handlers (objs pipeline_h ! 0))
   \<and> wf_slice pipeline_h \<lparr>sptr = 0, soff = 0, slen = 1, scap = 1\<rparr>
   \<and> With doubling 0 \<lparr>sptr = 0, soff = 0, slen = 1, scap = 1\<rparr> pipeline_h = Inr (1, derived_h)
   \<and> elems derived_h (handlers (objs derived_h ! 1)) = [one_handler, one_handler]
   \<and> objs derived_h ! 0 = objs pipeline_h ! 0
   \<and> (\<exists>\<sigma>2. Use doubling 1 (HandlerFunc voidHandler) derived_h = Inr \<sigma>2
         \<and> objs \<sigma>2 ! 0 = objs pipeline_h ! 0
         \<and> elems \<sigma>2 (handlers (objs pipeline_h ! 0)) = [one_handler]
         \<and> elems \<sigma>2 (handlers (objs \<sigma>2 ! 1)) = [one_handler, one_handler, HandlerFunc voidHandler])"
proof -
  let ?sl = "\<lparr>sptr = 0, soff = 0, slen = 1, scap = 1\<rparr>"
  have h1: "0 < length (objs pipeline_h)"
    and h2: "wf_slice pipeline_h (handlers (objs pipeline_h ! 0))"
    and h3: "wf_slice pipeline_h ?sl"
    and e: "elems pipeline_h (handlers (objs pipeline_h ! 0)) = [one_handler]"
      "elems pipeline_h ?sl = [one_handler]"
    by (simp_all add: pipeline_h_def wf_slice_def elems_def)
  from C6_With_is_independent[OF h1 h2 h3, of doubling voidHandler "[]"]
  obtain q \<sigma>1 where c: "With doubling 0 ?sl pipeline_h = Inr (q, \<sigma>1)"
    and k: "elems \<sigma>1 (handlers (objs \<sigma>1 ! q)) =
              elems pipeline_h (handlers (objs pipeline_h ! 0)) @ elems pipeline_h ?sl"
      "objs \<sigma>1 ! 0 = objs pipeline_h ! 0"
      "\<exists>\<sigma>2. Use doubling q (HandlerFunc voidHandler) \<sigma>1 = Inr \<sigma>2
          \<and> objs \<sigma>2 ! 0 = objs pipeline_h ! 0
          \<and> elems \<sigma>2 (handlers (objs pipeline_h ! 0)) =
              elems pipeline_h (handlers (objs pipeline_h ! 0))
          \<and> take (length (arrays pipeline_h)) (arrays \<sigma>2) = arrays pipeline_h
          \<and> elems \<sigma>2 (handlers (objs \<sigma>2 ! q)) =
              elems pipeline_h (handlers (objs pipeline_h ! 0)) @ elems pipeline_h ?sl
                @ [HandlerFunc voidHandler]"
    by blast
  from c[unfolded derived_h_reached] have q: "q = 1" and s: "\<sigma>1 = derived_h"
    by simp_all
  from k(1) have a: "elems derived_h (handlers (objs derived_h ! 1)) = [one_handler, one_handler]"
    unfolding q s e by simp
  from k(2) have b: "objs derived_h ! 0 = objs pipeline_h ! 0"
    unfolding s .
  from k(3) have d: "\<exists>\<sigma>2. Use doubling 1 (HandlerFunc voidHandler) derived_h = Inr \<sigma>2
         \<and> objs \<sigma>2 ! 0 = objs pipeline_h ! 0
         \<and> elems \<sigma>2 (handlers (objs pipeline_h ! 0)) = [one_handler]
         \<and> elems \<sigma>2 (handlers (objs \<sigma>2 ! 1)) = [one_handler, one_handler, HandlerFunc voidHandler]"
    unfolding q s e by auto
  from h1 h2 h3 derived_h_reached a b d show ?thesis by (intro conjI)
qed

subsection \<open>C7: the slice that Handlers hands out\<close>

text \<open>
  Claim C7, as amended (\<^verbatim>\<open>src/unnamed/part_000\<close>). \<^verbatim>\<open>Handlers\<close> returns the slice
  header stored in the pipeline, which shows the current list; it shares the backing
  array of the pipeline and is no copy. What it shows does not change when the pipeline
  is appended to afterwards: after a \<^verbatim>\<open>Use\<close>, after any number of calls of
  \<^verbatim>\<open>Use\<close>, and after a \<^verbatim>\<open>With\<close> on the pipeline, the slice handed out shows what
  it showed, while the pipeline's own list has grown. Nor does it change by calls of
  \<^verbatim>\<open>Use\<close> on any pipeline (\<open>m\<close>) whose slice lies in another backing array or,
  in the same array, ends no earlier than the slice handed out.
\<close>

theorem C7_Handlers_snapshot:
  assumes "n < length (objs \<sigma>)"
    and "wf_slice \<sigma> (handlers (objs \<sigma> ! n))"
  shows "Handlers n \<sigma> = Inr (handlers (objs \<sigma> ! n))
         \<and> (\<exists>\<sigma>'. Use g n (HandlerFunc f) \<sigma> = Inr \<sigma>'
               \<and> elems \<sigma>' (handlers (objs \<sigma> ! n)) = elems \<sigma> (handlers (objs \<sigma> ! n))
               \<and> elems \<sigma>' (handlers (objs \<sigma>' ! n)) =
                   elems \<sigma> (handlers (objs \<sigma> ! n)) @ [HandlerFunc f])
         \<and> (NilHandler \<notin> set later \<longrightarrow>
              (\<exists>\<sigma>'. Use_all g n later \<sigma> = Inr \<sigma>'
                 \<and> elems \<sigma>' (handlers (objs \<sigma> ! n)) = elems \<sigma> (handlers (objs \<sigma> ! n))
                 \<and> elems \<sigma>' (handlers (objs \<sigma>' ! n)) =
                     elems \<sigma> (handlers (objs \<sigma> ! n)) @ later))
         \<and> (wf_slice \<sigma> hs \<longrightarrow>
              (\<exists>q \<sigma>'. With g n hs \<sigma> = Inr (q, \<sigma>')
                 \<and> elems \<sigma>' (handlers (objs \<sigma> ! n)) = elems \<sigma> (handlers (objs \<sigma> ! n))))
         \<and> (m < length (objs \<sigma>) \<and> wf_slice \<sigma> (handlers (objs \<sigma> ! m))
              \<and> behind \<sigma> (handlers (objs \<sigma> ! n)) (handlers (objs \<sigma> ! m))
              \<and> NilHandler \<notin> set others \<longrightarrow>
              (\<exists>\<sigma>'. Use_all g m others \<sigma> = Inr \<sigma>'
                 \<and> elems \<sigma>' (handlers (objs \<sigma> ! n)) = elems \<sigma> (handlers (objs \<sigma> ! n))))"
proof (intro conjI impI)
  show "Handlers n \<sigma> = Inr (handlers (objs \<sigma> ! n))"
    using assms(1) by (simp add: Handlers_def)
  show "\<exists>\<sigma>'. Use g n (HandlerFunc f) \<sigma> = Inr \<sigma>'
               \<and> elems \<sigma>' (handlers (objs \<sigma> ! n)) = elems \<sigma> (handlers (objs \<sigma> ! n))
               \<and> elems \<sigma>' (handlers (objs \<sigma>' ! n)) =
                   elems \<sigma> (handlers (objs \<sigma> ! n)) @ [HandlerFunc f]"
    using Use_eq[OF assms(1), of g f] after_Use_snapshot[OF assms(2), of g "HandlerFunc f"]
      after_Use_elems[OF assms, of g "HandlerFunc f"]
    by simp
  show "\<exists>\<sigma>'. Use_all g n later \<sigma> = Inr \<sigma>'
                 \<and> elems \<sigma>' (handlers (objs \<sigma> ! n)) = elems \<sigma> (handlers (objs \<sigma> ! n))
                 \<and> elems \<sigma>' (handlers (objs \<sigma>' ! n)) =
                     elems \<sigma> (handlers (objs \<sigma> ! n)) @ later"
    if nn: "NilHandler \<notin> set later"
  proof -
    from Use_all_snapshot[OF assms behind_self[OF assms(2)] nn, of g]
    obtain \<sigma>' where u: "Use_all g n later \<sigma> = Inr \<sigma>'"
      and e: "elems \<sigma>' (handlers (objs \<sigma> ! n)) = elems \<sigma> (handlers (objs \<sigma> ! n))"
      by blast
    from Use_all_elems[OF assms nn, of g] u
    have "elems \<sigma>' (handlers (objs \<sigma>' ! n)) = elems \<sigma> (handlers (objs \<sigma> ! n)) @ later"
      by simp
    with u e show ?thesis by blast
  qed
  show "\<exists>q \<sigma>'. With g n hs \<sigma> = Inr (q, \<sigma>')
                 \<and> elems \<sigma>' (handlers (objs \<sigma> ! n)) = elems \<sigma> (handlers (objs \<sigma> ! n))"
    if wfh: "wf_slice \<sigma> hs"
  proof -
    from With_result[OF assms wfh, of g]
    obtain \<sigma>' where w: "With g n hs \<sigma> = Inr (length (objs \<sigma>), \<sigma>')"
      and a: "take (length (arrays \<sigma>)) (arrays \<sigma>') = arrays \<sigma>"
      by blast
    from w elems_prefix[OF a assms(2)] show ?thesis by blast
  qed
  show "\<exists>\<sigma>'. Use_all g m others \<sigma> = Inr \<sigma>'
          \<and> elems \<sigma>' (handlers (objs \<sigma> ! n)) = elems \<sigma> (handlers (objs \<sigma> ! n))"
    if h: "m < length (objs \<sigma>) \<and> wf_slice \<sigma> (handlers (objs \<sigma> ! m))
              \<and> behind \<sigma> (handlers (objs \<sigma> ! n)) (handlers (objs \<sigma> ! m))
              \<and> NilHandler \<notin> set others"
  proof -
    from h have h1: "m < length (objs \<sigma>)" and h2: "wf_slice \<sigma> (handlers (objs \<sigma> ! m))"
      and h3: "behind \<sigma> (handlers (objs \<sigma> ! n)) (handlers (objs \<sigma> ! m))"
      and h4: "NilHandler \<notin> set others"
      by simp_all
    from Use_all_snapshot[OF h1 h2 h3 h4, of g] show ?thesis .
  qed
qed

text \<open>
  A pipeline whose slice has length 3 and capacity 4: the fourth \<^verbatim>\<open>Use\<close> writes
  the new handler into the shared backing array (its last cell changes from nil to the
  handler), and the slice handed out before still shows the three handlers. And with a
  second pipeline that holds the same slice, a \<^verbatim>\<open>Use\<close> on the second leaves what
  the slice of the first shows.
\<close>

theorem C7_Handlers_snapshot_witness:
  "0 < length (objs three_used)
   \<and> wf_slice three_used (handlers (objs three_used ! 0))
   \<and> Use_all doubling 0 three_handlers before_h = Inr three_used
   \<and> Handlers 0 three_used = Inr \<lparr>sptr = 2, soff = 0, slen = 3, scap = 4\<rparr>
   \<and> elems three_used \<lparr>sptr = 2, soff = 0, slen = 3, scap = 4\<rparr> = three_handlers
   \<and> Use doubling 0 one_handler three_used = Inr four_used
   \<and> arrays three_used ! 2 = three_handlers @ [NilHandler]
   \<and> arrays four_used ! 2 = three_handlers @ [one_handler]
   \<and> elems four_used \<lparr>sptr = 2, soff = 0, slen = 3, scap = 4\<rparr> = three_handlers
   \<and> elems four_used (handlers (objs four_used ! 0)) = three_handlers @ [one_handler]
   \<and> 0 < length (objs two_share)
   \<and> wf_slice two_share (handlers (objs two_share ! 0))
   \<and> 1 < length (objs two_share)
   \<and> wf_slice two_share (handlers (objs two_share ! 1))
   \<and> behind two_share (handlers (objs two_share ! 0)) (handlers (objs two_share ! 1))
   \<and> NilHandler \<notin> set [other_handler]
   \<and> handlers (objs two_share ! 0) = \<lparr>sptr = 2, soff = 0, slen = 3, scap = 4\<rparr>
   \<and> elems two_share \<lparr>sptr = 2, soff = 0, slen = 3, scap = 4\<rparr> = three_handlers
   \<and> (\<exists>\<sigma>'. Use_all doubling 1 [other_handler] two_share = Inr \<sigma>'
         \<and> elems \<sigma>' \<lparr>sptr = 2, soff = 0, slen = 3, scap = 4\<rparr> = three_handlers)"
proof -
  have h1: "0 < length (objs three_used)"
    and h2: "wf_slice three_used (handlers (objs three_used ! 0))"
    and hd: "handlers (objs three_used ! 0) = \<lparr>sptr = 2, soff = 0, slen = 3, scap = 4\<rparr>"
    and e: "elems three_used \<lparr>sptr = 2, soff = 0, slen = 3, scap = 4\<rparr> = three_handlers"
    and a3: "arrays three_used ! 2 = three_handlers @ [NilHandler]"
    and a4: "arrays four_used ! 2 = three_handlers @ [one_handler]"
    by (simp_all add: three_used_def four_used_def wf_slice_def elems_def three_handlers_def)
  have g1: "0 < length (objs two_share)"
    and g2: "wf_slice two_share (handlers (objs two_share ! 0))"
    and g3: "1 < length (objs two_share)"
    and g4: "wf_slice two_share (handlers (objs two_share ! 1))"
    and g5: "behind two_share (handlers (objs two_share ! 0)) (handlers (objs two_share ! 1))"
    and g7: "handlers (objs two_share ! 0) = \<lparr>sptr = 2, soff = 0, slen = 3, scap = 4\<rparr>"
    and g8: "elems two_share \<lparr>sptr = 2, soff = 0, slen = 3, scap = 4\<rparr> = three_handlers"
    by (simp_all add: two_share_def wf_slice_def behind_def elems_def three_handlers_def)
  have g6: "NilHandler \<notin> set [other_handler]"
    by (simp add: other_handler_def invokes_next_once_def)
  note t = C7_Handlers_snapshot[OF h1 h2, where g = doubling
      and f = "\<lambda>rw r next s. case fst (traces ''h'') rw r s of
          (rw', r', s') \<Rightarrow> snd (traces ''h'') rw r s (next rw' r' s')"
      and later = "[]" and hs = nil_slice and m = 0 and others = "[]"]
  note u = C7_Handlers_snapshot[OF g1 g2, where g = doubling
      and f = "\<lambda>rw r next s. case fst (traces ''h'') rw r s of
          (rw', r', s') \<Rightarrow> snd (traces ''h'') rw r s (next rw' r' s')"
      and later = "[]" and hs = nil_slice and m = 1 and others = "[other_handler]"]
  from t
  have c: "Handlers 0 three_used = Inr (handlers (objs three_used ! 0))"
    and "\<exists>\<sigma>'. Use doubling 0 one_handler three_used = Inr \<sigma>'
           \<and> elems \<sigma>' (handlers (objs three_used ! 0)) = elems three_used (handlers (objs three_used ! 0))
           \<and> elems \<sigma>' (handlers (objs \<sigma>' ! 0)) =
               elems three_used (handlers (objs three_used ! 0)) @ [one_handler]"
    unfolding one_handler_def invokes_next_once_def by blast+
  then have k: "elems four_used \<lparr>sptr = 2, soff = 0, slen = 3, scap = 4\<rparr> = three_handlers"
    "elems four_used (handlers (objs four_used ! 0)) = three_handlers @ [one_handler]"
    unfolding four_used_reached hd e by simp_all
  from c have c': "Handlers 0 three_used = Inr \<lparr>sptr = 2, soff = 0, slen = 3, scap = 4\<rparr>"
    unfolding hd .
  from u have "1 < length (objs two_share) \<and> wf_slice two_share (handlers (objs two_share ! 1))
              \<and> behind two_share (handlers (objs two_share ! 0)) (handlers (objs two_share ! 1))
              \<and> NilHandler \<notin> set [other_handler] \<longrightarrow>
              (\<exists>\<sigma>'. Use_all doubling 1 [other_handler] two_share = Inr \<sigma>'
                 \<and> elems \<sigma>' (handlers (objs two_share ! 0)) = elems two_share (handlers (objs two_share ! 0)))"
    by (elim conjE)
  with g3 g4 g5 g6
  have "\<exists>\<sigma>'. Use_all doubling 1 [other_handler] two_share = Inr \<sigma>'
                 \<and> elems \<sigma>' (handlers (objs two_share ! 0)) = elems two_share (handlers (objs two_share ! 0))"
    by (elim impE) (intro conjI)
  then have z: "\<exists>\<sigma>'. Use_all doubling 1 [other_handler] two_share = Inr \<sigma>'
         \<and> elems \<sigma>' \<lparr>sptr = 2, soff = 0, slen = 3, scap = 4\<rparr> = three_handlers"
    unfolding g7 g8 .
  from h1 h2 three_used_reached c' e four_used_reached a3 a4 k g1 g2 g3 g4 g5 g6 g7 g8 z
  show ?thesis by (intro conjI)
qed
text \<open>
  Claim C7 as stated fails: the slice handed out can be mutated afterwards. Let \<open>p\<close>
  hold three handlers in an array of capacity 4, and let
  \<^verbatim>\<open>q := New(p.Handlers()...)\<close>, which keeps the slice it is given. After
  \<^verbatim>\<open>p.Use(one_handler)\<close>, \<^verbatim>\<open>p.Handlers()\<close> hands out a slice of length 4 that
  shows \<open>one_handler\<close> in its last cell. Then \<^verbatim>\<open>q.Use(other_handler)\<close> appends in
  place, behind the three handlers of \<open>q\<close>, and the slice handed out shows
  \<open>other_handler\<close> in its last cell.
\<close>

theorem C7_counterexample:
  "Use_all doubling 0 three_handlers before_h = Inr three_used
   \<and> Handlers 0 three_used = Inr \<lparr>sptr = 2, soff = 0, slen = 3, scap = 4\<rparr>
   \<and> New \<lparr>sptr = 2, soff = 0, slen = 3, scap = 4\<rparr> three_used = (1, two_share)
   \<and> Use doubling 0 one_handler two_share = Inr two_share_p_used
   \<and> Handlers 0 two_share_p_used = Inr \<lparr>sptr = 2, soff = 0, slen = 4, scap = 4\<rparr>
   \<and> elems two_share_p_used \<lparr>sptr = 2, soff = 0, slen = 4, scap = 4\<rparr> =
       three_handlers @ [one_handler]
   \<and> Use doubling 1 other_handler two_share_p_used = Inr two_share_q_used
   \<and> elems two_share_q_used \<lparr>sptr = 2, soff = 0, slen = 4, scap = 4\<rparr> =
       three_handlers @ [other_handler]
   \<and> elems two_share_q_used \<lparr>sptr = 2, soff = 0, slen = 4, scap = 4\<rparr> \<noteq>
       elems two_share_p_used \<lparr>sptr = 2, soff = 0, slen = 4, scap = 4\<rparr>"
proof -
  have a: "Handlers 0 three_used = Inr \<lparr>sptr = 2, soff = 0, slen = 3, scap = 4\<rparr>"
    by (simp add: Handlers_def three_used_def)
  have b: "Handlers 0 two_share_p_used = Inr \<lparr>sptr = 2, soff = 0, slen = 4, scap = 4\<rparr>"
    by (simp add: Handlers_def two_share_p_used_def)
  have c: "elems two_share_p_used \<lparr>sptr = 2, soff = 0, slen = 4, scap = 4\<rparr> =
       three_handlers @ [one_handler]"
    by (simp add: elems_def two_share_p_used_def three_handlers_def)
  have d: "elems two_share_q_used \<lparr>sptr = 2, soff = 0, slen = 4, scap = 4\<rparr> =
       three_handlers @ [other_handler]"
    by (simp add: elems_def two_share_q_used_def three_handlers_def)
  have e: "elems two_share_q_used \<lparr>sptr = 2, soff = 0, slen = 4, scap = 4\<rparr> \<noteq>
       elems two_share_p_used \<lparr>sptr = 2, soff = 0, slen = 4, scap = 4\<rparr>"
    unfolding c d using other_handler_differs by simp
  from three_used_reached a two_share_reached two_share_p_used_reached b c
    two_share_q_used_reached d e
  show ?thesis by (intro conjI)
qed

subsection \<open>C8: the address Run listens on\<close>

text \<open>
  Claim C8, as amended. In \<^verbatim>\<open>src/unnamed/part_000\<close>, \<^verbatim>\<open>Run\<close> listens on the address
  \<^verbatim>\<open>detectAddress\<close> gives: the first address argument when one is supplied; otherwise
  \<^verbatim>\<open>":"\<close> followed by \<^verbatim>\<open>PORT\<close> when that variable is not empty; otherwise the
  default address \<^verbatim>\<open>":8080"\<close>. In \<^verbatim>\<open>src/negroni.go\<close>, \<^verbatim>\<open>Run\<close> takes no address
  argument: it listens on \<^verbatim>\<open>HOST\<close>, then \<^verbatim>\<open>":"\<close>, then \<^verbatim>\<open>PORT\<close>, or \<^verbatim>\<open>"3000"\<close>
  when \<^verbatim>\<open>PORT\<close> is empty.
\<close>

theorem C8_listen_address:
  "(addr \<noteq> [] \<longrightarrow> listen_addr (Run getenv addr) = addr ! 0)
   \<and> (addr = [] \<and> getenv ''PORT'' \<noteq> '''' \<longrightarrow>
        listen_addr (Run getenv addr) = '':'' @ getenv ''PORT'')
   \<and> (addr = [] \<and> getenv ''PORT'' = '''' \<longrightarrow> listen_addr (Run getenv addr) = DefaultAddress)
   \<and> DefaultAddress = '':8080''
   \<and> listen_addr (Run getenv addr) = detectAddress getenv addr
   \<and> listen_addr (Run_ngo getenv) =
       getenv ''HOST'' @ '':'' @ (if getenv ''PORT'' = '''' then ''3000'' else getenv ''PORT'')"
  by (simp add: Run_def Run_ngo_def detectAddress_def DefaultAddress_def Let_def)

text \<open>
  An address argument with \<^verbatim>\<open>PORT\<close> set, \<^verbatim>\<open>PORT\<close> alone, and an empty environment.
\<close>

theorem C8_listen_address_witness:
  "[''127.0.0.1:9000''] \<noteq> []
   \<and> listen_addr (Run port_only [''127.0.0.1:9000'']) = ''127.0.0.1:9000''
   \<and> port_only ''PORT'' \<noteq> ''''
   \<and> listen_addr (Run port_only []) = '':80''
   \<and> no_env ''PORT'' = ''''
   \<and> listen_addr (Run no_env []) = '':8080''
   \<and> listen_addr (Run_ngo no_env) = '':3000''"
proof -
  have a: "[''127.0.0.1:9000''] \<noteq> []" by simp
  have b: "port_only ''PORT'' \<noteq> ''''" by (simp add: port_only_def)
  have c: "no_env ''PORT'' = ''''" by (simp add: no_env_def)
  have n: "([] :: string list) = []" by simp
  from C8_listen_address[where addr = "[''127.0.0.1:9000'']" and getenv = port_only]
  have "[''127.0.0.1:9000''] \<noteq> [] \<longrightarrow>
          listen_addr (Run port_only [''127.0.0.1:9000'']) = [''127.0.0.1:9000''] ! 0"
    by (elim conjE)
  with a have r1: "listen_addr (Run port_only [''127.0.0.1:9000'']) = ''127.0.0.1:9000''"
    by simp
  from C8_listen_address[where addr = "[]" and getenv = port_only]
  have "([] :: string list) = [] \<and> port_only ''PORT'' \<noteq> '''' \<longrightarrow>
          listen_addr (Run port_only []) = '':'' @ port_only ''PORT''"
    by (elim conjE)
  with b have r2: "listen_addr (Run port_only []) = '':80''"
    by (simp add: port_only_def)
  note t = C8_listen_address[where addr = "[]" and getenv = no_env]
  from t have "([] :: string list) = [] \<and> no_env ''PORT'' = '''' \<longrightarrow>
          listen_addr (Run no_env []) = DefaultAddress"
    by (elim conjE)
  moreover from t have "DefaultAddress = '':8080''"
    by (elim conjE)
  ultimately have r3: "listen_addr (Run no_env []) = '':8080''"
    using c by simp
  from t have "listen_addr (Run_ngo no_env) =
       no_env ''HOST'' @ '':'' @ (if no_env ''PORT'' = '''' then ''3000'' else no_env ''PORT'')"
    by (elim conjE)
  then have r4: "listen_addr (Run_ngo no_env) = '':3000''"
    by (simp add: no_env_def)
  from a r1 b r2 c r3 r4 show ?thesis by (intro conjI)
qed

text \<open>
  Claim C8 as stated fails for \<^verbatim>\<open>src/negroni.go\<close>: with \<^verbatim>\<open>PORT=80\<close> and
  \<^verbatim>\<open>HOST=localhost\<close> the address is \<^verbatim>\<open>"localhost:80"\<close>, not \<^verbatim>\<open>":80"\<close>.
\<close>

theorem C8_counterexample:
  "host_and_port ''PORT'' \<noteq> ''''
   \<and> listen_addr (Run_ngo host_and_port) = ''localhost:80''
   \<and> '':'' @ host_and_port ''PORT'' = '':80''"
  by (simp add: Run_ngo_def host_and_port_def)

subsection \<open>C9: the index of build in src/negroni.go stays in range\<close>

text \<open>
  Claim C9 (\<^verbatim>\<open>src/negroni.go\<close>). \<^verbatim>\<open>build(i, handlers)\<close> returns a chain exactly when
  \<open>0 \<le> i < len(handlers)\<close>, and panics with an index out of range exactly otherwise.
  \<^verbatim>\<open>New\<close> writes the sentinel chain out and does not call \<^verbatim>\<open>build\<close> (on the empty
  list of the new pipeline \<^verbatim>\<open>build(0, ...)\<close> would panic). \<^verbatim>\<open>Use\<close> calls
  \<^verbatim>\<open>build(0, ...)\<close> on the list after the append, which is not empty: on every
  pipeline with a well-formed slice \<^verbatim>\<open>Use\<close> returns, and leaves the slice well formed.
  So \<^verbatim>\<open>New\<close> followed by any number of calls of \<^verbatim>\<open>Use\<close>, with any handlers, returns
  and never takes the out-of-range branch.
\<close>

theorem C9_build_index_in_range:
  "((\<exists>m. build_ngo i hs = Inr m) = (0 \<le> i \<and> i < int (length hs)))
   \<and> ((build_ngo i hs = Inl IndexOutOfRange) = (i < 0 \<or> int (length hs) \<le> i))
   \<and> New_ngo \<sigma> =
       (length (objs \<sigma>),
        \<sigma>\<lparr>objs := objs \<sigma> @
             [\<lparr>middleware_ngo = Middleware_ngo (HandlerFunc voidHandler)
                                  (Some (Middleware_ngo NilHandler None)),
               handlers_ngo = nil_slice\<rparr>]\<rparr>)
   \<and> build_ngo 0 (elems (snd (New_ngo \<sigma>)) (handlers_ngo (objs (snd (New_ngo \<sigma>)) ! fst (New_ngo \<sigma>))))
       = Inl IndexOutOfRange
   \<and> (n < length (objs \<tau>) \<and> wf_slice \<tau> (handlers_ngo (objs \<tau> ! n)) \<longrightarrow>
        (\<exists>\<tau>'. Use_ngo g n h \<tau> = Inr \<tau>' \<and> n < length (objs \<tau>')
           \<and> wf_slice \<tau>' (handlers_ngo (objs \<tau>' ! n))
           \<and> elems \<tau>' (handlers_ngo (objs \<tau>' ! n)) = elems \<tau> (handlers_ngo (objs \<tau> ! n)) @ [h]))
   \<and> (\<exists>\<sigma>'. Use_all_ngo g (fst (New_ngo \<sigma>)) hs (snd (New_ngo \<sigma>)) = Inr \<sigma>'
         \<and> elems \<sigma>' (handlers_ngo (objs \<sigma>' ! fst (New_ngo \<sigma>))) = hs)"
proof (intro conjI impI)
  show "(\<exists>m. build_ngo i hs = Inr m) = (0 \<le> i \<and> i < int (length hs))"
  proof (cases "0 \<le> i \<and> i < int (length hs)")
    case True
    then show ?thesis using build_ngo_in_range[of i hs] by simp
  next
    case False
    then have "build_ngo i hs = Inl IndexOutOfRange"
      by (intro build_ngo_out_of_range) auto
    with False show ?thesis by simp
  qed
  show "(build_ngo i hs = Inl IndexOutOfRange) = (i < 0 \<or> int (length hs) \<le> i)"
  proof (cases "0 \<le> i \<and> i < int (length hs)")
    case True
    then show ?thesis using build_ngo_in_range[of i hs] by auto
  next
    case False
    then have "build_ngo i hs = Inl IndexOutOfRange"
      by (intro build_ngo_out_of_range) auto
    with False show ?thesis by auto
  qed
  show "New_ngo \<sigma> =
       (length (objs \<sigma>),
        \<sigma>\<lparr>objs := objs \<sigma> @
             [\<lparr>middleware_ngo = Middleware_ngo (HandlerFunc voidHandler)
                                  (Some (Middleware_ngo NilHandler None)),
               handlers_ngo = nil_slice\<rparr>]\<rparr>)"
    by (simp add: New_ngo_def)
  show "build_ngo 0 (elems (snd (New_ngo \<sigma>)) (handlers_ngo (objs (snd (New_ngo \<sigma>)) ! fst (New_ngo \<sigma>))))
       = Inl IndexOutOfRange"
    by (simp add: New_ngo_def elems_nil_slice build_ngo_out_of_range)
  show "\<exists>\<tau>'. Use_ngo g n h \<tau> = Inr \<tau>' \<and> n < length (objs \<tau>')
           \<and> wf_slice \<tau>' (handlers_ngo (objs \<tau>' ! n))
           \<and> elems \<tau>' (handlers_ngo (objs \<tau>' ! n)) = elems \<tau> (handlers_ngo (objs \<tau> ! n)) @ [h]"
    if a: "n < length (objs \<tau>) \<and> wf_slice \<tau> (handlers_ngo (objs \<tau> ! n))"
  proof -
    from a have n: "n < length (objs \<tau>)" and wf: "wf_slice \<tau> (handlers_ngo (objs \<tau> ! n))"
      by simp_all
    show ?thesis
      using Use_ngo_eq[OF n wf, of g h] after_Use_ngo_elems[OF n wf, of g h]
        after_Use_ngo_wf[OF n wf, of g h] n
      by (simp add: after_Use_ngo_length)
  qed
  show "\<exists>\<sigma>'. Use_all_ngo g (fst (New_ngo \<sigma>)) hs (snd (New_ngo \<sigma>)) = Inr \<sigma>'
         \<and> elems \<sigma>' (handlers_ngo (objs \<sigma>' ! fst (New_ngo \<sigma>))) = hs"
  proof -
    have n: "fst (New_ngo \<sigma>) < length (objs (snd (New_ngo \<sigma>)))"
      and wf: "wf_slice (snd (New_ngo \<sigma>)) (handlers_ngo (objs (snd (New_ngo \<sigma>)) ! fst (New_ngo \<sigma>)))"
      and e: "elems (snd (New_ngo \<sigma>)) (handlers_ngo (objs (snd (New_ngo \<sigma>)) ! fst (New_ngo \<sigma>))) = []"
      by (simp_all add: New_ngo_def wf_nil_slice elems_nil_slice)
    from Use_all_ngo_total[OF n wf, of g hs] e show ?thesis by auto
  qed
qed

text \<open>
  \<^verbatim>\<open>Use\<close> on a pipeline fresh from \<^verbatim>\<open>New()\<close>, and \<^verbatim>\<open>build\<close> on a list of three
  handlers at the indices 2, 3 and -1.
\<close>

theorem C9_build_index_in_range_witness:
  "0 < length (objs before_h_ngo)
   \<and> wf_slice before_h_ngo (handlers_ngo (objs before_h_ngo ! 0))
   \<and> (\<exists>\<tau>'. Use_ngo doubling 0 NilHandler before_h_ngo = Inr \<tau>' \<and> 0 < length (objs \<tau>')
         \<and> wf_slice \<tau>' (handlers_ngo (objs \<tau>' ! 0))
         \<and> elems \<tau>' (handlers_ngo (objs \<tau>' ! 0)) =
             elems before_h_ngo (handlers_ngo (objs before_h_ngo ! 0)) @ [NilHandler])
   \<and> build_ngo 2 three_handlers \<noteq> Inl IndexOutOfRange
   \<and> build_ngo 3 three_handlers = Inl IndexOutOfRange
   \<and> build_ngo (- 1) three_handlers = Inl IndexOutOfRange"
proof -
  have n: "0 < length (objs before_h_ngo)"
    and wf: "wf_slice before_h_ngo (handlers_ngo (objs before_h_ngo ! 0))"
    by (simp_all add: before_h_ngo_def New_ngo_def empty_store_def wf_nil_slice)
  note t = C9_build_index_in_range[where n = 0 and \<tau> = before_h_ngo and g = doubling
      and h = NilHandler and \<sigma> = empty_store and hs = three_handlers]
  from t[where i = 0] have "0 < length (objs before_h_ngo)
        \<and> wf_slice before_h_ngo (handlers_ngo (objs before_h_ngo ! 0)) \<longrightarrow>
        (\<exists>\<tau>'. Use_ngo doubling 0 NilHandler before_h_ngo = Inr \<tau>' \<and> 0 < length (objs \<tau>')
           \<and> wf_slice \<tau>' (handlers_ngo (objs \<tau>' ! 0))
           \<and> elems \<tau>' (handlers_ngo (objs \<tau>' ! 0)) =
               elems before_h_ngo (handlers_ngo (objs before_h_ngo ! 0)) @ [NilHandler])"
    by (elim conjE)
  with n wf have a: "\<exists>\<tau>'. Use_ngo doubling 0 NilHandler before_h_ngo = Inr \<tau>' \<and> 0 < length (objs \<tau>')
           \<and> wf_slice \<tau>' (handlers_ngo (objs \<tau>' ! 0))
           \<and> elems \<tau>' (handlers_ngo (objs \<tau>' ! 0)) =
               elems before_h_ngo (handlers_ngo (objs before_h_ngo ! 0)) @ [NilHandler]"
    by blast
  from t[where i = 2]
  have "(build_ngo 2 three_handlers = Inl IndexOutOfRange) =
          (2 < (0::int) \<or> int (length three_handlers) \<le> 2)"
    by (elim conjE)
  then have b: "build_ngo 2 three_handlers \<noteq> Inl IndexOutOfRange"
    by (simp add: three_handlers_def)
  from t[where i = 3]
  have "(build_ngo 3 three_handlers = Inl IndexOutOfRange) =
          (3 < (0::int) \<or> int (length three_handlers) \<le> 3)"
    by (elim conjE)
  then have c: "build_ngo 3 three_handlers = Inl IndexOutOfRange"
    by (simp add: three_handlers_def)
  from t[where i = "- 1"]
  have "(build_ngo (- 1) three_handlers = Inl IndexOutOfRange) =
          (- 1 < (0::int) \<or> int (length three_handlers) \<le> - 1)"
    by (elim conjE)
  then have d: "build_ngo (- 1) three_handlers = Inl IndexOutOfRange"
    by simp
  from n wf a b c d show ?thesis by (intro conjI)
qed

subsection \<open>C10: the sentinel never invokes its continuation\<close>

text \<open>
  Claim C10. In both files the handler of the terminal sentinel returns without
  invoking its continuation, whatever the continuation is. The sentinel's stored next
  is the zero-value node (nil handler, nil next), whose entry point panics when it is
  invoked (in \<^verbatim>\<open>src/negroni.go\<close>: when it is invoked with an unwritten response
  writer). The sentinel returns normally with the state unchanged, whatever node it
  holds as next, so a dispatch that reaches the sentinel ends there and the zero-value
  node is not entered. Every chain that \<^verbatim>\<open>build\<close> returns ends in the sentinel.
\<close>

theorem C10_sentinel:
  "voidMiddleware = Middleware (HandlerFunc (\<lambda>rw r next s. Inr s)) (Some (Middleware NilHandler None))
   \<and> Handler_ServeHTTP (handler voidMiddleware) rw r cont s = Inr s
   \<and> middleware_ServeHTTP (Middleware (handler voidMiddleware) nf) rw r s = Inr s
   \<and> middleware_ServeHTTP voidMiddleware rw r s = Inr s
   \<and> middleware_ServeHTTP (Middleware NilHandler None) rw r s = Inl NilDereference
   \<and> build hs = foldr newMiddleware hs voidMiddleware
   \<and> Handler_ServeHTTP (HandlerFunc voidHandler) rw r cont s = Inr s
   \<and> middleware_ServeHTTP_ngo ops (Middleware_ngo (HandlerFunc voidHandler) (Some m)) rw r s =
         (if isResponseWriter ops rw then Inr s else Inl TypeAssertion)
   \<and> middleware_ServeHTTP_ngo ops (Middleware_ngo NilHandler None) rw r s =
         (if \<not> isResponseWriter ops rw then Inl TypeAssertion
          else if Written ops rw s then Inr s else Inl NilDereference)
   \<and> (hs \<noteq> [] \<longrightarrow>
         build_ngo 0 hs =
           Inr (foldr (\<lambda>h m. Middleware_ngo h (Some m)) hs
                  (Middleware_ngo (HandlerFunc voidHandler) (Some (Middleware_ngo NilHandler None)))))"
proof (intro conjI impI)
  show "voidMiddleware = Middleware (HandlerFunc (\<lambda>rw r next s. Inr s)) (Some (Middleware NilHandler None))"
    by (simp add: voidMiddleware_def newMiddleware_def)
  show "Handler_ServeHTTP (handler voidMiddleware) rw r cont s = Inr s"
    by (simp add: voidMiddleware_def newMiddleware_def)
  show "middleware_ServeHTTP (Middleware (handler voidMiddleware) nf) rw r s = Inr s"
    by (simp add: voidMiddleware_def newMiddleware_def)
  show "middleware_ServeHTTP voidMiddleware rw r s = Inr s"
    by (rule serve_void)
  show "middleware_ServeHTTP (Middleware NilHandler None) rw r s = Inl NilDereference"
    by simp
  show "build hs = foldr newMiddleware hs voidMiddleware"
    by (rule build_foldr)
  show "Handler_ServeHTTP (HandlerFunc voidHandler) rw r cont s = Inr s"
    by (simp add: voidHandler_def)
  show "middleware_ServeHTTP_ngo ops (Middleware_ngo (HandlerFunc voidHandler) (Some m)) rw r s =
           (if isResponseWriter ops rw then Inr s else Inl TypeAssertion)"
    by (simp add: voidHandler_def)
  show "middleware_ServeHTTP_ngo ops (Middleware_ngo NilHandler None) rw r s =
           (if \<not> isResponseWriter ops rw then Inl TypeAssertion
            else if Written ops rw s then Inr s else Inl NilDereference)"
    by simp
  show "hs \<noteq> [] \<Longrightarrow>
         build_ngo 0 hs =
           Inr (foldr (\<lambda>h m. Middleware_ngo h (Some m)) hs
                  (Middleware_ngo (HandlerFunc voidHandler) (Some (Middleware_ngo NilHandler None))))"
    using build_ngo_0 by (simp add: chain_ngo_def sentinel_ngo_def)
qed

text \<open>
  The sentinel and the zero-value node at a concrete sink, and \<^verbatim>\<open>build\<close> of
  \<^verbatim>\<open>src/negroni.go\<close> on a list of one handler.
\<close>

theorem C10_sentinel_witness:
  "middleware_ServeHTTP voidMiddleware (Wrapped 0) () quiet = Inr quiet
   \<and> middleware_ServeHTTP (Middleware NilHandler None) (Wrapped 0) () quiet = Inl NilDereference
   \<and> [invokes_next_once (traces ''a'')] \<noteq> []
   \<and> build_ngo 0 [invokes_next_once (traces ''a'')] =
        Inr (Middleware_ngo (invokes_next_once (traces ''a''))
               (Some (Middleware_ngo (HandlerFunc voidHandler) (Some (Middleware_ngo NilHandler None)))))"
proof -
  have ne: "[invokes_next_once (traces ''a'')] \<noteq> []" by simp
  note t = C10_sentinel[where rw = "Wrapped 0" and r = "()" and s = quiet
      and hs = "[invokes_next_once (traces ''a'')]" and ops = spec_sinks
      and nf = None and m = "Middleware_ngo NilHandler None" and cont = nil_func]
  from t have a: "middleware_ServeHTTP voidMiddleware (Wrapped 0) () quiet = Inr quiet"
    by (elim conjE)
  from t have b: "middleware_ServeHTTP (Middleware NilHandler None) (Wrapped 0) () quiet = Inl NilDereference"
    by (elim conjE)
  from t have "[invokes_next_once (traces ''a'')] \<noteq> [] \<longrightarrow>
         build_ngo 0 [invokes_next_once (traces ''a'')] =
           Inr (foldr (\<lambda>h m. Middleware_ngo h (Some m)) [invokes_next_once (traces ''a'')]
                  (Middleware_ngo (HandlerFunc voidHandler) (Some (Middleware_ngo NilHandler None))))"
    by (elim conjE)
  with ne have c: "build_ngo 0 [invokes_next_once (traces ''a'')] =
        Inr (Middleware_ngo (invokes_next_once (traces ''a''))
               (Some (Middleware_ngo (HandlerFunc voidHandler) (Some (Middleware_ngo NilHandler None)))))"
    by simp
  from a b ne c show ?thesis by (intro conjI)
qed

end
